theory Spec2Isabelle
  imports Complex_Main "HOL-Library.Word" "HOL-Library.Multiset"
begin

unbundle bit_operations_syntax

section \<open>The progress word (JobStateManager)\<close>

text \<open>
  \<^verbatim>\<open>enum stage_t {UNDEFINED_STAGE=0, MAP_STAGE=1, SHUFFLE_STAGE=2, REDUCE_STAGE=3};\<close>
  The enumeration is a datatype; \<open>stage_val\<close> is the integer value of an enumerator
  (the operand of \<^verbatim>\<open>stage & STAGE_MASK\<close>) and \<open>stage_of\<close> is the
  \<^verbatim>\<open>static_cast<stage_t>\<close> of a value that has been masked to two bits.
\<close>

datatype stage_t = UNDEFINED_STAGE | MAP_STAGE | SHUFFLE_STAGE | REDUCE_STAGE

fun stage_val :: "stage_t \<Rightarrow> 32 word" where
  "stage_val UNDEFINED_STAGE = 0"
| "stage_val MAP_STAGE = 1"
| "stage_val SHUFFLE_STAGE = 2"
| "stage_val REDUCE_STAGE = 3"

definition stage_of :: "64 word \<Rightarrow> stage_t" where
  "stage_of x =
     (if x = 0 then UNDEFINED_STAGE
      else if x = 1 then MAP_STAGE
      else if x = 2 then SHUFFLE_STAGE
      else REDUCE_STAGE)"

definition STAGE_MASK :: "32 word" where
  "STAGE_MASK = 0x3"

definition STAGE_SHIFT :: nat where
  "STAGE_SHIFT = 62"

definition PROCESSED_SHIFT :: nat where
  "PROCESSED_SHIFT = 31"

definition MAX_31_BITS :: "32 word" where
  "MAX_31_BITS = 0x7FFFFFFF"

text \<open>
  \<^verbatim>\<open>encodeState\<close>: each field is masked in 32 bits, widened to 64 bits without sign
  and shifted to its place: bits 63..62 stage, 61..31 processed, 30..0 total.
\<close>

definition encodeState :: "stage_t \<Rightarrow> 32 word \<Rightarrow> 32 word \<Rightarrow> 64 word" where
  "encodeState stage processed total' =
     push_bit STAGE_SHIFT (ucast (stage_val stage AND STAGE_MASK))
     OR push_bit PROCESSED_SHIFT (ucast (processed AND MAX_31_BITS))
     OR ucast (total' AND MAX_31_BITS)"

definition decodeStage :: "64 word \<Rightarrow> stage_t" where
  "decodeStage v = stage_of (drop_bit STAGE_SHIFT v AND ucast STAGE_MASK)"

definition decodeProcessed :: "64 word \<Rightarrow> 32 word" where
  "decodeProcessed v = ucast (drop_bit PROCESSED_SHIFT v AND ucast MAX_31_BITS)"

definition decodeTotal :: "64 word \<Rightarrow> 32 word" where
  "decodeTotal v = ucast (v AND ucast MAX_31_BITS)"

text \<open>
  The manager holds one atomic 64-bit word. \<^verbatim>\<open>updateState\<close> is a single store of
  the encoded triple and \<^verbatim>\<open>getState\<close> a single load followed by the three decoders.
\<close>

record JobStateManager =
  state :: "64 word"

definition JobStateManager_init :: "32 word \<Rightarrow> JobStateManager" where
  "JobStateManager_init totalKeys = \<lparr>state = encodeState UNDEFINED_STAGE 0 totalKeys\<rparr>"

definition updateState :: "stage_t \<Rightarrow> 32 word \<Rightarrow> 32 word \<Rightarrow> JobStateManager \<Rightarrow> JobStateManager" where
  "updateState stage processed total' sm = sm\<lparr>state := encodeState stage processed total'\<rparr>"

definition getState :: "JobStateManager \<Rightarrow> stage_t \<times> 32 word \<times> 32 word" where
  "getState sm =
     (let packed = state sm
      in (decodeStage packed, decodeProcessed packed, decodeTotal packed))"

text \<open>
  The three read-modify-write operations are compare-and-swap loops. The body of each
  loop computes \<open>newVal\<close> from \<open>oldVal\<close>; a failed \<^verbatim>\<open>compare_exchange_weak\<close>
  stores the word it found into \<open>oldVal\<close> and the loop retries, a successful one
  replaces the word, which is then equal to \<open>oldVal\<close>, by \<open>newVal\<close>.
  The words found by the failed attempts are the argument \<open>seen\<close>, in order; the
  call returns at the first attempt after them. Without interference \<open>seen\<close> is empty.
\<close>

definition incrementProcessed_newVal :: "64 word \<Rightarrow> 64 word" where
  "incrementProcessed_newVal oldVal =
     (let stage = decodeStage oldVal;
          processed = decodeProcessed oldVal;
          total' = decodeTotal oldVal
      in encodeState stage (processed + 1) total')"

fun incrementProcessed_cas :: "64 word list \<Rightarrow> 64 word \<Rightarrow> 64 word" where
  "incrementProcessed_cas [] oldVal = incrementProcessed_newVal oldVal"
| "incrementProcessed_cas (cur # seen) oldVal = incrementProcessed_cas seen cur"

definition incrementProcessed :: "JobStateManager \<Rightarrow> JobStateManager" where
  "incrementProcessed sm = sm\<lparr>state := incrementProcessed_cas [] (state sm)\<rparr>"

definition setTotal_newVal :: "32 word \<Rightarrow> 64 word \<Rightarrow> 64 word" where
  "setTotal_newVal newTotal oldVal =
     (let stage = decodeStage oldVal in encodeState stage 0 newTotal)"

fun setTotal_cas :: "32 word \<Rightarrow> 64 word list \<Rightarrow> 64 word \<Rightarrow> 64 word" where
  "setTotal_cas newTotal [] oldVal = setTotal_newVal newTotal oldVal"
| "setTotal_cas newTotal (cur # seen) oldVal = setTotal_cas newTotal seen cur"

definition setTotal :: "32 word \<Rightarrow> JobStateManager \<Rightarrow> JobStateManager" where
  "setTotal newTotal sm = sm\<lparr>state := setTotal_cas newTotal [] (state sm)\<rparr>"

definition setStage_newVal :: "stage_t \<Rightarrow> 64 word \<Rightarrow> 64 word" where
  "setStage_newVal newStage oldVal =
     (let total' = decodeTotal oldVal in encodeState newStage 0 total')"

fun setStage_cas :: "stage_t \<Rightarrow> 64 word list \<Rightarrow> 64 word \<Rightarrow> 64 word" where
  "setStage_cas newStage [] oldVal = setStage_newVal newStage oldVal"
| "setStage_cas newStage (cur # seen) oldVal = setStage_cas newStage seen cur"

definition setStage :: "stage_t \<Rightarrow> JobStateManager \<Rightarrow> JobStateManager" where
  "setStage newStage sm = sm\<lparr>state := setStage_cas newStage [] (state sm)\<rparr>"

section \<open>Clients, key order and the job context\<close>

text \<open>
  \<^verbatim>\<open>K2::operator<\<close> is virtual: the order on intermediate keys is the parameter
  \<open>lt\<close> of every function that compares keys. Two keys are equivalent when neither
  is less than the other. A strict weak order is irreflexive and transitive, and its
  equivalence is transitive.
\<close>

definition equiv_key :: "('k \<Rightarrow> 'k \<Rightarrow> bool) \<Rightarrow> 'k \<Rightarrow> 'k \<Rightarrow> bool" where
  "equiv_key lt a b = (\<not> lt a b \<and> \<not> lt b a)"

definition strict_weak_order :: "('k \<Rightarrow> 'k \<Rightarrow> bool) \<Rightarrow> bool" where
  "strict_weak_order lt =
     ((\<forall>x. \<not> lt x x)
      \<and> (\<forall>x y z. lt x y \<longrightarrow> lt y z \<longrightarrow> lt x z)
      \<and> (\<forall>x y z. equiv_key lt x y \<longrightarrow> equiv_key lt y z \<longrightarrow> equiv_key lt x z))"

text \<open>
  A client is pure: \<^verbatim>\<open>map\<close> is the list of pairs it hands to \<^verbatim>\<open>emit2\<close>, in order,
  and \<^verbatim>\<open>reduce\<close> the list of pairs it hands to \<^verbatim>\<open>emit3\<close>.
\<close>

record ('k1, 'v1, 'k2, 'v2, 'k3, 'v3) MapReduceClient =
  map_fn :: "'k1 \<times> 'v1 \<Rightarrow> ('k2 \<times> 'v2) list"
  reduce_fn :: "('k2 \<times> 'v2) list \<Rightarrow> ('k3 \<times> 'v3) list"

text \<open>
  \<^verbatim>\<open>struct JobContext\<close>. A vector is a list whose last element is \<^verbatim>\<open>back()\<close>.
  \<open>threads\<close> holds, for each worker thread, whether it is joinable. The barrier and
  the mutexes only order the threads and have no field here: the phases below are run
  one after the other, as the two barriers force, and each atomic step is one function.
\<close>

record ('k1, 'v1, 'k2, 'v2, 'k3, 'v3) JobContext =
  stateManager :: JobStateManager
  threads :: "bool list"
  inputVec :: "('k1 \<times> 'v1) list"
  outputVec :: "('k3 \<times> 'v3) list"
  joined :: "bool list"
  intermediateVecs :: "('k2 \<times> 'v2) list list"
  shuffledData :: "('k2 \<times> 'v2) list list"
  shuffleCounter :: "64 word"
  nextInputIndex :: "32 word"
  nextReduceIndex :: "32 word"

definition THREAD_ZERO :: nat where
  "THREAD_ZERO = 0"

text \<open>
  The constructor: the progress word starts at (UNDEFINED, 0, input size), the size
  converted from \<^verbatim>\<open>size_t\<close> to \<^verbatim>\<open>uint32_t\<close>; no thread has been created yet.
\<close>

definition JobContext_init ::
  "('k1 \<times> 'v1) list \<Rightarrow> ('k3 \<times> 'v3) list \<Rightarrow> nat \<Rightarrow> ('k1, 'v1, 'k2, 'v2, 'k3, 'v3) JobContext" where
  "JobContext_init input output nThreads =
     \<lparr>stateManager = JobStateManager_init (of_nat (length input)),
      threads = [],
      inputVec = input,
      outputVec = output,
      joined = replicate nThreads False,
      intermediateVecs = replicate nThreads [],
      shuffledData = [],
      shuffleCounter = 0,
      nextInputIndex = 0,
      nextReduceIndex = 0\<rparr>"

section \<open>The worker pipeline\<close>

text \<open>
  The result of one iteration of a dispatch loop: the loop ended, it processed the
  element at an index, or it read a vector out of range.
\<close>

datatype iter = Break | Processed nat | Undefined

text \<open>
  \<^verbatim>\<open>emit2\<close> appends to the buffer of the calling thread, \<open>intermediateVecs[tid]\<close>;
  \<^verbatim>\<open>emit3\<close> appends to the output vector under the output mutex.
\<close>

definition emit2 ::
  "'k2 \<times> 'v2 \<Rightarrow> nat \<Rightarrow> ('k1, 'v1, 'k2, 'v2, 'k3, 'v3) JobContext
     \<Rightarrow> ('k1, 'v1, 'k2, 'v2, 'k3, 'v3) JobContext" where
  "emit2 p tid ctx =
     ctx\<lparr>intermediateVecs := (intermediateVecs ctx)[tid := (intermediateVecs ctx ! tid) @ [p]]\<rparr>"

definition emit3 ::
  "'k3 \<times> 'v3 \<Rightarrow> ('k1, 'v1, 'k2, 'v2, 'k3, 'v3) JobContext
     \<Rightarrow> ('k1, 'v1, 'k2, 'v2, 'k3, 'v3) JobContext" where
  "emit3 p ctx = ctx\<lparr>outputVec := outputVec ctx @ [p]\<rparr>"

text \<open>
  \<^verbatim>\<open>mapPhase\<close>: thread 0 first sets the stage; then every thread repeats
  \<open>mapPhase_iter\<close>: fetch-and-add of the 32-bit index, the bounds check against the
  input size, the client's map with its emissions, and the increment of the progress word.
\<close>

definition mapPhase_enter ::
  "nat \<Rightarrow> ('k1, 'v1, 'k2, 'v2, 'k3, 'v3) JobContext \<Rightarrow> ('k1, 'v1, 'k2, 'v2, 'k3, 'v3) JobContext" where
  "mapPhase_enter tid ctx =
     (if tid = THREAD_ZERO
      then ctx\<lparr>stateManager := setStage MAP_STAGE (stateManager ctx)\<rparr>
      else ctx)"

definition mapPhase_iter ::
  "('k1, 'v1, 'k2, 'v2, 'k3, 'v3) MapReduceClient \<Rightarrow> nat
     \<Rightarrow> ('k1, 'v1, 'k2, 'v2, 'k3, 'v3) JobContext
     \<Rightarrow> iter \<times> ('k1, 'v1, 'k2, 'v2, 'k3, 'v3) JobContext" where
  "mapPhase_iter client tid ctx =
     (let oldValue = nextInputIndex ctx;
          ctx1 = ctx\<lparr>nextInputIndex := oldValue + 1\<rparr>
      in if unat oldValue \<ge> length (inputVec ctx1) then (Break, ctx1)
         else
           (let ctx2 = foldl (\<lambda>c p. emit2 p tid c) ctx1
                         (map_fn client (inputVec ctx1 ! unat oldValue))
            in (Processed (unat oldValue),
                ctx2\<lparr>stateManager := incrementProcessed (stateManager ctx2)\<rparr>)))"

text \<open>
  \<^verbatim>\<open>sortPhase\<close>: \<^verbatim>\<open>std::sort\<close> is the parameter \<open>sortf\<close>, called with the
  comparison of the keys of two pairs. Its contract is \<open>sort_contract\<close>: the result is a
  permutation of the argument in which no element is less than an earlier one.
\<close>

definition pair_less :: "('k \<Rightarrow> 'k \<Rightarrow> bool) \<Rightarrow> 'k \<times> 'v \<Rightarrow> 'k \<times> 'v \<Rightarrow> bool" where
  "pair_less lt a b = lt (fst a) (fst b)"

definition sorted_vec :: "('k \<Rightarrow> 'k \<Rightarrow> bool) \<Rightarrow> ('k \<times> 'v) list \<Rightarrow> bool" where
  "sorted_vec lt vec = sorted_wrt (\<lambda>a b. \<not> pair_less lt b a) vec"

definition sort_contract ::
  "((('k \<times> 'v) \<Rightarrow> ('k \<times> 'v) \<Rightarrow> bool) \<Rightarrow> ('k \<times> 'v) list \<Rightarrow> ('k \<times> 'v) list)
     \<Rightarrow> ('k \<Rightarrow> 'k \<Rightarrow> bool) \<Rightarrow> bool" where
  "sort_contract sortf lt =
     (\<forall>vec. mset (sortf (pair_less lt) vec) = mset vec
            \<and> sorted_vec lt (sortf (pair_less lt) vec))"

definition sortPhase ::
  "((('k2 \<times> 'v2) \<Rightarrow> ('k2 \<times> 'v2) \<Rightarrow> bool) \<Rightarrow> ('k2 \<times> 'v2) list \<Rightarrow> ('k2 \<times> 'v2) list)
     \<Rightarrow> ('k2 \<Rightarrow> 'k2 \<Rightarrow> bool) \<Rightarrow> nat
     \<Rightarrow> ('k1, 'v1, 'k2, 'v2, 'k3, 'v3) JobContext
     \<Rightarrow> ('k1, 'v1, 'k2, 'v2, 'k3, 'v3) JobContext" where
  "sortPhase sortf lt tid ctx =
     ctx\<lparr>intermediateVecs :=
           (intermediateVecs ctx)[tid := sortf (pair_less lt) (intermediateVecs ctx ! tid)]\<rparr>"

text \<open>
  \<^verbatim>\<open>shufflePhase\<close>, first loop of an iteration: the greatest key among the back
  elements of the nonempty buffers. \<open>None\<close> is the null pointer.
\<close>

fun findMaxKey :: "('k \<Rightarrow> 'k \<Rightarrow> bool) \<Rightarrow> ('k \<times> 'v) list list \<Rightarrow> 'k option \<Rightarrow> 'k option" where
  "findMaxKey lt [] maxKey = maxKey"
| "findMaxKey lt (vec # vecs) maxKey =
     (if vec \<noteq> [] then
        (let candidate = fst (last vec)
         in case maxKey of
              None \<Rightarrow> findMaxKey lt vecs (Some candidate)
            | Some m \<Rightarrow>
                if lt m candidate then findMaxKey lt vecs (Some candidate)
                else findMaxKey lt vecs maxKey)
      else findMaxKey lt vecs maxKey)"

text \<open>
  The inner \<^verbatim>\<open>while\<close> on one buffer: while the back element's key is equivalent to
  \<open>maxKey\<close>, move it to the end of the current group, pop it and increment the
  progress word.
\<close>

function drainVec ::
  "('k \<Rightarrow> 'k \<Rightarrow> bool) \<Rightarrow> 'k \<Rightarrow> ('k \<times> 'v) list \<Rightarrow> ('k \<times> 'v) list \<Rightarrow> JobStateManager
     \<Rightarrow> ('k \<times> 'v) list \<times> ('k \<times> 'v) list \<times> JobStateManager" where
  "drainVec lt maxKey vec currentGroup sm =
     (if vec \<noteq> [] \<and> \<not> lt (fst (last vec)) maxKey \<and> \<not> lt maxKey (fst (last vec))
      then drainVec lt maxKey (butlast vec) (currentGroup @ [last vec]) (incrementProcessed sm)
      else (vec, currentGroup, sm))"
  by pat_completeness auto
termination
  by (relation "measure (\<lambda>(lt, maxKey, vec, currentGroup, sm). length vec)") auto

declare drainVec.simps [simp del]

text \<open>The \<^verbatim>\<open>for\<close> over all buffers that collects the pairs with \<open>maxKey\<close>.\<close>

fun drainAll ::
  "('k \<Rightarrow> 'k \<Rightarrow> bool) \<Rightarrow> 'k \<Rightarrow> ('k \<times> 'v) list list \<Rightarrow> ('k \<times> 'v) list \<Rightarrow> JobStateManager
     \<Rightarrow> ('k \<times> 'v) list list \<times> ('k \<times> 'v) list \<times> JobStateManager" where
  "drainAll lt maxKey [] currentGroup sm = ([], currentGroup, sm)"
| "drainAll lt maxKey (vec # vecs) currentGroup sm =
     (case drainVec lt maxKey vec currentGroup sm of
        (vec', group', sm') \<Rightarrow>
          (case drainAll lt maxKey vecs group' sm' of
             (vecs', group'', sm'') \<Rightarrow> (vec' # vecs', group'', sm'')))"

text \<open>
  One iteration of the outer \<^verbatim>\<open>while (true)\<close> after a key was found: a new group is
  appended to \<open>shuffledData\<close>, filled from the buffers, and the counter is incremented.
\<close>

definition shuffleGroup ::
  "('k2 \<Rightarrow> 'k2 \<Rightarrow> bool) \<Rightarrow> 'k2 \<Rightarrow> ('k1, 'v1, 'k2, 'v2, 'k3, 'v3) JobContext
     \<Rightarrow> ('k1, 'v1, 'k2, 'v2, 'k3, 'v3) JobContext" where
  "shuffleGroup lt maxKey ctx =
     (case drainAll lt maxKey (intermediateVecs ctx) [] (stateManager ctx) of
        (vecs', currentGroup, sm') \<Rightarrow>
          ctx\<lparr>intermediateVecs := vecs',
              shuffledData := shuffledData ctx @ [currentGroup],
              stateManager := sm',
              shuffleCounter := shuffleCounter ctx + 1\<rparr>)"

text \<open>
  The outer loop. It ends when every buffer is empty; nothing in the code bounds the
  number of its iterations, so the loop is a partial function and \<open>None\<close> is a run that
  does not return.
\<close>

partial_function (option) shuffleLoop ::
  "('k2 \<Rightarrow> 'k2 \<Rightarrow> bool) \<Rightarrow> ('k1, 'v1, 'k2, 'v2, 'k3, 'v3) JobContext
     \<Rightarrow> ('k1, 'v1, 'k2, 'v2, 'k3, 'v3) JobContext option" where
  "shuffleLoop lt ctx =
     (case findMaxKey lt (intermediateVecs ctx) None of
        None \<Rightarrow> Some ctx
      | Some maxKey \<Rightarrow> shuffleLoop lt (shuffleGroup lt maxKey ctx))"

declare shuffleLoop.simps [code]

text \<open>
  The start of \<^verbatim>\<open>shufflePhase\<close>: the sizes of the buffers are summed in a
  \<^verbatim>\<open>size_t\<close> and \<^verbatim>\<open>setTotal\<close> receives the sum converted to \<^verbatim>\<open>uint32_t\<close>.
\<close>

definition totalPairs :: "('k \<times> 'v) list list \<Rightarrow> 64 word" where
  "totalPairs vecs = foldl (\<lambda>acc vec. acc + of_nat (length vec)) 0 vecs"

definition shufflePhase_setTotal ::
  "('k1, 'v1, 'k2, 'v2, 'k3, 'v3) JobContext \<Rightarrow> ('k1, 'v1, 'k2, 'v2, 'k3, 'v3) JobContext" where
  "shufflePhase_setTotal ctx =
     ctx\<lparr>stateManager := setTotal (ucast (totalPairs (intermediateVecs ctx))) (stateManager ctx)\<rparr>"

definition shufflePhase ::
  "('k2 \<Rightarrow> 'k2 \<Rightarrow> bool) \<Rightarrow> ('k1, 'v1, 'k2, 'v2, 'k3, 'v3) JobContext
     \<Rightarrow> ('k1, 'v1, 'k2, 'v2, 'k3, 'v3) JobContext option" where
  "shufflePhase lt ctx = shuffleLoop lt (shufflePhase_setTotal ctx)"

text \<open>
  \<^verbatim>\<open>reducePhase\<close>: one iteration of the dispatch loop. The 32-bit index is compared
  with the 64-bit counter; \<open>shuffledData[oldValue]\<close> beyond the end of the vector is
  undefined behaviour.
\<close>

definition reducePhase_iter ::
  "('k1, 'v1, 'k2, 'v2, 'k3, 'v3) MapReduceClient \<Rightarrow> nat
     \<Rightarrow> ('k1, 'v1, 'k2, 'v2, 'k3, 'v3) JobContext
     \<Rightarrow> iter \<times> ('k1, 'v1, 'k2, 'v2, 'k3, 'v3) JobContext" where
  "reducePhase_iter client tid ctx =
     (let oldValue = nextReduceIndex ctx;
          ctx1 = ctx\<lparr>nextReduceIndex := oldValue + 1\<rparr>
      in if (ucast oldValue :: 64 word) \<ge> shuffleCounter ctx1 then (Break, ctx1)
         else if unat oldValue \<ge> length (shuffledData ctx1) then (Undefined, ctx1)
         else
           (let ctx2 = foldl (\<lambda>c p. emit3 p c) ctx1
                         (reduce_fn client (shuffledData ctx1 ! unat oldValue))
            in (Processed (unat oldValue),
                ctx2\<lparr>stateManager := incrementProcessed (stateManager ctx2)\<rparr>)))"

text \<open>
  Several workers run a dispatch loop at once. A schedule is the order in which the
  workers take their steps: each entry names the worker that performs its next step,
  and a step is the entry of the phase or one iteration of its loop. Every worker has a
  program counter; the third component of the state lists the indices handed to the
  client, in the order of the calls. An iteration is one step because the client writes
  only to the buffer of its own worker, and to the output vector under the mutex.
\<close>

datatype pc = Entry | Loop | Exited | Crashed

definition mapPhase_step ::
  "('k1, 'v1, 'k2, 'v2, 'k3, 'v3) MapReduceClient
     \<Rightarrow> pc list \<times> ('k1, 'v1, 'k2, 'v2, 'k3, 'v3) JobContext \<times> nat list \<Rightarrow> nat
     \<Rightarrow> pc list \<times> ('k1, 'v1, 'k2, 'v2, 'k3, 'v3) JobContext \<times> nat list" where
  "mapPhase_step client s tid =
     (case s of (pcs, ctx, calls) \<Rightarrow>
        if tid \<ge> length pcs then s
        else
          (case pcs ! tid of
             Entry \<Rightarrow> (pcs[tid := Loop], mapPhase_enter tid ctx, calls)
           | Loop \<Rightarrow>
               (case mapPhase_iter client tid ctx of
                  (Break, ctx') \<Rightarrow> (pcs[tid := Exited], ctx', calls)
                | (Processed i, ctx') \<Rightarrow> (pcs, ctx', calls @ [i])
                | (Undefined, ctx') \<Rightarrow> (pcs[tid := Crashed], ctx', calls))
           | Exited \<Rightarrow> s
           | Crashed \<Rightarrow> s))"

definition reducePhase_step ::
  "('k1, 'v1, 'k2, 'v2, 'k3, 'v3) MapReduceClient
     \<Rightarrow> pc list \<times> ('k1, 'v1, 'k2, 'v2, 'k3, 'v3) JobContext \<times> nat list \<Rightarrow> nat
     \<Rightarrow> pc list \<times> ('k1, 'v1, 'k2, 'v2, 'k3, 'v3) JobContext \<times> nat list" where
  "reducePhase_step client s tid =
     (case s of (pcs, ctx, calls) \<Rightarrow>
        if tid \<ge> length pcs then s
        else
          (case pcs ! tid of
             Entry \<Rightarrow> (pcs[tid := Loop], ctx, calls)
           | Loop \<Rightarrow>
               (case reducePhase_iter client tid ctx of
                  (Break, ctx') \<Rightarrow> (pcs[tid := Exited], ctx', calls)
                | (Processed i, ctx') \<Rightarrow> (pcs, ctx', calls @ [i])
                | (Undefined, ctx') \<Rightarrow> (pcs[tid := Crashed], ctx', calls))
           | Exited \<Rightarrow> s
           | Crashed \<Rightarrow> s))"

definition all_exited :: "pc list \<Rightarrow> bool" where
  "all_exited pcs = list_all (\<lambda>p. p = Exited) pcs"

text \<open>
  The part of \<^verbatim>\<open>threadFunc\<close> that only thread 0 runs, between the two barriers.
\<close>

definition threadFunc_setStage ::
  "('k1, 'v1, 'k2, 'v2, 'k3, 'v3) JobContext \<Rightarrow> ('k1, 'v1, 'k2, 'v2, 'k3, 'v3) JobContext" where
  "threadFunc_setStage ctx = ctx\<lparr>stateManager := setStage SHUFFLE_STAGE (stateManager ctx)\<rparr>"

definition threadFunc_shuffle ::
  "('k2 \<Rightarrow> 'k2 \<Rightarrow> bool) \<Rightarrow> ('k1, 'v1, 'k2, 'v2, 'k3, 'v3) JobContext
     \<Rightarrow> ('k1, 'v1, 'k2, 'v2, 'k3, 'v3) JobContext option" where
  "threadFunc_shuffle lt ctx =
     (case shufflePhase lt (threadFunc_setStage ctx) of
        None \<Rightarrow> None
      | Some ctx' \<Rightarrow>
          Some (ctx'\<lparr>stateManager :=
                      updateState REDUCE_STAGE 0 (ucast (shuffleCounter ctx')) (stateManager ctx')\<rparr>))"

text \<open>
  \<^verbatim>\<open>threadFunc\<close> on all \<open>nThreads\<close> workers of a context: the map phase under a
  schedule, the sort of every buffer by its owner, the first barrier, the shuffle by
  thread 0, the second barrier, the reduce phase under a schedule. A barrier lets no
  thread pass before all have arrived, so a schedule that leaves a worker inside a phase
  is not a run and gives \<open>None\<close>, as does a shuffle that does not return. The result
  is the final context with the indices mapped and the indices reduced.
\<close>

definition runWorkers ::
  "((('k2 \<times> 'v2) \<Rightarrow> ('k2 \<times> 'v2) \<Rightarrow> bool) \<Rightarrow> ('k2 \<times> 'v2) list \<Rightarrow> ('k2 \<times> 'v2) list)
     \<Rightarrow> ('k2 \<Rightarrow> 'k2 \<Rightarrow> bool) \<Rightarrow> ('k1, 'v1, 'k2, 'v2, 'k3, 'v3) MapReduceClient
     \<Rightarrow> nat \<Rightarrow> nat list \<Rightarrow> nat list
     \<Rightarrow> ('k1, 'v1, 'k2, 'v2, 'k3, 'v3) JobContext
     \<Rightarrow> (('k1, 'v1, 'k2, 'v2, 'k3, 'v3) JobContext \<times> nat list \<times> nat list) option" where
  "runWorkers sortf lt client nThreads mapSched reduceSched ctx =
     (case foldl (mapPhase_step client) (replicate nThreads Entry, ctx, []) mapSched of
        (pcs1, ctx1, mapCalls) \<Rightarrow>
          if \<not> all_exited pcs1 then None
          else
            (case threadFunc_shuffle lt
                    (foldl (\<lambda>c tid. sortPhase sortf lt tid c) ctx1 [0..<nThreads]) of
               None \<Rightarrow> None
             | Some ctx3 \<Rightarrow>
                 (case foldl (reducePhase_step client) (replicate nThreads Entry, ctx3, [])
                         reduceSched of
                    (pcs2, ctx4, reduceCalls) \<Rightarrow>
                      if all_exited pcs2 then Some (ctx4, mapCalls, reduceCalls) else None)))"

section \<open>The job handle\<close>

text \<open>
  A \<^verbatim>\<open>JobHandle\<close> is a pointer to a context: \<open>None\<close> is the null pointer and
  \<open>Some a\<close> the address \<open>a\<close> in the heap of contexts, where a deleted context is
  \<open>None\<close>. Using an address that holds no context is undefined behaviour, the result
  \<open>None\<close> of the functions below. The float expression of \<^verbatim>\<open>getJobState\<close>,
  \<^verbatim>\<open>static_cast<float>(numProcessed) / static_cast<float>(numTotal) * MAX_PERCENTAGE\<close>,
  is the parameter \<open>float_pct\<close>. \<^verbatim>\<open>join\<close> blocks until the worker has returned; what
  the workers do to the context is \<open>runWorkers\<close>, and here joining only records that
  the thread is no longer joinable.
\<close>

type_synonym JobHandle = "nat option"

record JobState =
  stage :: stage_t
  percentage :: real

definition MAX_PERCENTAGE :: real where
  "MAX_PERCENTAGE = 100"

definition startMapReduceJob ::
  "('k1, 'v1, 'k2, 'v2, 'k3, 'v3) MapReduceClient \<Rightarrow> ('k1 \<times> 'v1) list \<Rightarrow> ('k3 \<times> 'v3) list
     \<Rightarrow> nat \<Rightarrow> ('k1, 'v1, 'k2, 'v2, 'k3, 'v3) JobContext option list
     \<Rightarrow> JobHandle \<times> ('k1, 'v1, 'k2, 'v2, 'k3, 'v3) JobContext option list" where
  "startMapReduceJob client input output multiThreadLevel heap =
     (if input = [] then (None, heap)
      else
        (let context = JobContext_init input output multiThreadLevel;
             context' = context\<lparr>threads := replicate multiThreadLevel True\<rparr>
         in (Some (length heap), heap @ [Some context'])))"

definition getJobState ::
  "(32 word \<Rightarrow> 32 word \<Rightarrow> real) \<Rightarrow> JobHandle
     \<Rightarrow> ('k1, 'v1, 'k2, 'v2, 'k3, 'v3) JobContext option list \<Rightarrow> JobState option" where
  "getJobState float_pct job heap =
     (case job of
        None \<Rightarrow> Some \<lparr>stage = REDUCE_STAGE, percentage = MAX_PERCENTAGE\<rparr>
      | Some a \<Rightarrow>
          if a \<ge> length heap then None
          else
            (case heap ! a of
               None \<Rightarrow> None
             | Some context \<Rightarrow>
                 (case getState (stateManager context) of
                    (st, numProcessed, numTotal) \<Rightarrow>
                      Some \<lparr>stage = st,
                            percentage =
                              (if numTotal = 0 then MAX_PERCENTAGE
                               else min (float_pct numProcessed numTotal) MAX_PERCENTAGE)\<rparr>)))"

definition waitForJob_join ::
  "('k1, 'v1, 'k2, 'v2, 'k3, 'v3) JobContext \<Rightarrow> nat \<Rightarrow> ('k1, 'v1, 'k2, 'v2, 'k3, 'v3) JobContext" where
  "waitForJob_join context i =
     (if \<not> joined context ! i \<and> threads context ! i
      then context\<lparr>threads := (threads context)[i := False],
                   joined := (joined context)[i := True]\<rparr>
      else context)"

definition waitForJob ::
  "JobHandle \<Rightarrow> ('k1, 'v1, 'k2, 'v2, 'k3, 'v3) JobContext option list
     \<Rightarrow> ('k1, 'v1, 'k2, 'v2, 'k3, 'v3) JobContext option list option" where
  "waitForJob job heap =
     (case job of
        None \<Rightarrow> Some heap
      | Some a \<Rightarrow>
          if a \<ge> length heap then None
          else
            (case heap ! a of
               None \<Rightarrow> None
             | Some context \<Rightarrow>
                 Some (heap[a := Some (foldl waitForJob_join context
                                         [0..<length (threads context)])])))"

definition closeJobHandle ::
  "JobHandle \<Rightarrow> ('k1, 'v1, 'k2, 'v2, 'k3, 'v3) JobContext option list
     \<Rightarrow> ('k1, 'v1, 'k2, 'v2, 'k3, 'v3) JobContext option list option" where
  "closeJobHandle job heap =
     (case job of
        None \<Rightarrow> Some heap
      | Some a \<Rightarrow>
          (case waitForJob job heap of
             None \<Rightarrow> None
           | Some heap' \<Rightarrow> Some (heap'[a := None])))"

section \<open>Example jobs\<close>

text \<open>
  A client on natural numbers: map emits its input pair and the pair with the next key,
  reduce emits the sum of the keys and the sum of the values of its group. The job
  \<open>single_job\<close> has one input pair and one worker; \<open>single_mapped\<close> is its context
  after the map phase (thread 0 enters, maps index 0 and leaves the loop).
\<close>

definition example_client :: "(nat, nat, nat, nat, nat, nat) MapReduceClient" where
  "example_client =
     \<lparr>map_fn = (\<lambda>kv. [(fst kv, snd kv), (fst kv + 1, snd kv)]),
      reduce_fn = (\<lambda>g. [(sum_list (map fst g), sum_list (map snd g))])\<rparr>"

definition single_job :: "(nat, nat, nat, nat, nat, nat) JobContext" where
  "single_job = JobContext_init [(1, 10)] [] 1"

definition single_mapped :: "(nat, nat, nat, nat, nat, nat) JobContext" where
  "single_mapped =
     fst (snd (foldl (mapPhase_step example_client) ([Entry], single_job, []) [0, 0, 0]))"

text \<open>
  A context of two workers at the first barrier, with sorted buffers that share the
  key 1.
\<close>

definition two_buffers :: "(nat, nat, nat, nat, nat, nat) JobContext" where
  "two_buffers =
     (JobContext_init [(1, 10), (2, 20)] [] 2)
       \<lparr>intermediateVecs := [[(1, 10), (3, 30)], [(1, 11), (2, 20)]]\<rparr>"

text \<open>
  An insertion sort by a comparison, one function that meets the contract of
  \<^verbatim>\<open>std::sort\<close>: an element is put in front of the first element of the sorted
  rest that is not less than it, so that pairs with equivalent keys keep the order in
  which they were emitted. A client whose map emits its input pair and whose reduce
  emits the first pair of its group; a client with the same map whose reduce emits the
  key of the first pair of its group with the sum of the values of the group (and
  nothing for an empty group, which the shuffle never forms); and an input whose two
  pairs have the same key.
\<close>

fun insert_sorted :: "('a \<Rightarrow> 'a \<Rightarrow> bool) \<Rightarrow> 'a \<Rightarrow> 'a list \<Rightarrow> 'a list" where
  "insert_sorted cmp x [] = [x]"
| "insert_sorted cmp x (y # ys) =
     (if cmp y x then y # insert_sorted cmp x ys else x # y # ys)"

definition insertion_sort :: "('a \<Rightarrow> 'a \<Rightarrow> bool) \<Rightarrow> 'a list \<Rightarrow> 'a list" where
  "insertion_sort cmp xs = foldr (insert_sorted cmp) xs []"

definition first_client :: "(nat, nat, nat, nat, nat, nat) MapReduceClient" where
  "first_client = \<lparr>map_fn = (\<lambda>kv. [kv]), reduce_fn = take 1\<rparr>"

definition counter_client :: "(nat, nat, nat, nat, nat, nat) MapReduceClient" where
  "counter_client =
     \<lparr>map_fn = (\<lambda>kv. [kv]),
      reduce_fn = (\<lambda>g. case g of [] \<Rightarrow> [] | p # ps \<Rightarrow> [(fst p, sum_list (map snd g))])\<rparr>"

definition tie_input :: "(nat \<times> nat) list" where
  "tie_input = [(1, 10), (1, 20)]"

text \<open>
  The dispatch counters \<open>nextInputIndex\<close> and \<open>nextReduceIndex\<close> have 32 bits and
  so \<open>dispatch_range\<close> values. Two inputs at that size: a context of one worker at the
  first barrier whose sorted buffer holds one pair for each of \<open>dispatch_range\<close> keys
  (a client may emit any number of pairs for one input pair), and an input of
  \<open>dispatch_range - 1\<close> equal pairs.
\<close>

definition dispatch_range :: nat where
  "dispatch_range = 2 ^ 32"


definition long_input :: "(nat \<times> nat) list" where
  "long_input = replicate (dispatch_range - 1) (1, 10)"

text \<open>
  A client whose map emits, for an input pair \<open>(k, v)\<close>, the pair \<open>(i, v)\<close> for
  every \<open>i\<close> below \<open>k\<close>, with the reduce of \<open>counter_client\<close>; and an input of
  one pair for which it emits \<open>dispatch_range - 1\<close> keys.
\<close>

definition spread_client :: "(nat, nat, nat, nat, nat, nat) MapReduceClient" where
  "spread_client =
     \<lparr>map_fn = (\<lambda>kv. map (\<lambda>i. (i, snd kv)) [0..<fst kv]),
      reduce_fn = (\<lambda>g. case g of [] \<Rightarrow> [] | p # ps \<Rightarrow> [(fst p, sum_list (map snd g))])\<rparr>"

definition spread_input :: "(nat \<times> nat) list" where
  "spread_input = [(dispatch_range - 1, 10)]"

text \<open>The output vector of a run of the workers that returned.\<close>

definition job_output ::
  "(('k1, 'v1, 'k2, 'v2, 'k3, 'v3) JobContext \<times> nat list \<times> nat list) option
     \<Rightarrow> ('k3 \<times> 'v3) list option" where
  "job_output r = map_option (outputVec \<circ> fst) r"

section \<open>Notions used to state the properties of the shuffle\<close>

text \<open>
  What one pass of the inner loop takes from a buffer for the key \<open>m\<close>: the longest
  run of pairs at the back whose keys are equivalent to \<open>m\<close>, in the order in which
  they are popped, and the front of the buffer that stays.
\<close>

definition moved_part :: "('k \<Rightarrow> 'k \<Rightarrow> bool) \<Rightarrow> 'k \<Rightarrow> ('k \<times> 'v) list \<Rightarrow> ('k \<times> 'v) list" where
  "moved_part lt m vec = takeWhile (\<lambda>p. equiv_key lt (fst p) m) (rev vec)"

definition keep_part :: "('k \<Rightarrow> 'k \<Rightarrow> bool) \<Rightarrow> 'k \<Rightarrow> ('k \<times> 'v) list \<Rightarrow> ('k \<times> 'v) list" where
  "keep_part lt m vec = rev (dropWhile (\<lambda>p. equiv_key lt (fst p) m) (rev vec))"

text \<open>
  A group is uniform when no two of its keys are distinguishable. A sequence of groups
  is descending when every key of a group is strictly greater than every key of every
  later group.
\<close>

definition uniform_group :: "('k \<Rightarrow> 'k \<Rightarrow> bool) \<Rightarrow> ('k \<times> 'v) list \<Rightarrow> bool" where
  "uniform_group lt g = (\<forall>a\<in>set g. \<forall>b\<in>set g. \<not> lt (fst a) (fst b) \<and> \<not> lt (fst b) (fst a))"

definition group_above :: "('k \<Rightarrow> 'k \<Rightarrow> bool) \<Rightarrow> ('k \<times> 'v) list \<Rightarrow> ('k \<times> 'v) list \<Rightarrow> bool" where
  "group_above lt g g' = (\<forall>a\<in>set g. \<forall>b\<in>set g'. lt (fst b) (fst a))"

definition descending_groups :: "('k \<Rightarrow> 'k \<Rightarrow> bool) \<Rightarrow> ('k \<times> 'v) list list \<Rightarrow> bool" where
  "descending_groups lt G = sorted_wrt (group_above lt) G"

text \<open>
  The equivalence classes of the keys of a list of pairs: the class of a key is the set
  of the keys of the list that are equivalent to it.
\<close>

definition key_classes :: "('k \<Rightarrow> 'k \<Rightarrow> bool) \<Rightarrow> ('k \<times> 'v) list \<Rightarrow> 'k set set" where
  "key_classes lt ps = (\<lambda>k. {k' \<in> fst ` set ps. equiv_key lt k k'}) ` fst ` set ps"

text \<open>
  The context a returning shuffle loop leaves when it formed the groups \<open>G\<close>: every
  buffer is empty, the groups stand after the earlier content of \<open>shuffledData\<close>, the
  progress word was incremented once for every pair moved and the counter once for
  every group.
\<close>

definition shuffled_ctx ::
  "('k1, 'v1, 'k2, 'v2, 'k3, 'v3) JobContext \<Rightarrow> ('k2 \<times> 'v2) list list
     \<Rightarrow> ('k1, 'v1, 'k2, 'v2, 'k3, 'v3) JobContext" where
  "shuffled_ctx ctx G =
     ctx\<lparr>intermediateVecs := map (\<lambda>vec. []) (intermediateVecs ctx),
         shuffledData := shuffledData ctx @ G,
         stateManager := (incrementProcessed ^^ length (concat G)) (stateManager ctx),
         shuffleCounter := shuffleCounter ctx + of_nat (length G)\<rparr>"

section \<open>Invariants of the dispatch loops\<close>

text \<open>
  The number of workers that have left a dispatch loop, and what holds after every step
  of the reduce phase on the groups \<open>SD\<close> with output \<open>out0\<close> at its start: no
  worker has read out of range, the indices \<open>0, \<dots>, k - 1\<close> have been reduced, in this
  order, the index counter has been incremented once for each of them and once by every
  worker that left, no worker left before all indices were handed out, and the output
  holds what the client emitted for the first \<open>k\<close> groups.
\<close>

definition exited_count :: "pc list \<Rightarrow> nat" where
  "exited_count pcs = length (filter (\<lambda>p. p = Exited) pcs)"

definition reduce_inv ::
  "('k1, 'v1, 'k2, 'v2, 'k3, 'v3) MapReduceClient \<Rightarrow> ('k2 \<times> 'v2) list list
     \<Rightarrow> ('k3 \<times> 'v3) list \<Rightarrow> nat
     \<Rightarrow> pc list \<times> ('k1, 'v1, 'k2, 'v2, 'k3, 'v3) JobContext \<times> nat list \<Rightarrow> bool" where
  "reduce_inv client SD out0 nThreads s =
     (case s of (pcs, c, calls) \<Rightarrow>
        length pcs = nThreads \<and> Crashed \<notin> set pcs
        \<and> shuffledData c = SD \<and> shuffleCounter c = of_nat (length SD)
        \<and> (\<exists>k. calls = [0..<k] \<and> k \<le> length SD
              \<and> nextReduceIndex c = of_nat (k + exited_count pcs)
              \<and> (0 < exited_count pcs \<longrightarrow> k = length SD)
              \<and> outputVec c = out0 @ concat (map (reduce_fn client) (take k SD))))"

text \<open>
  The same for the map phase of a job on \<open>input\<close> with \<open>nThreads\<close> workers and output
  \<open>out0\<close>: the buffers hold, as a multiset, what the client emitted for the first
  \<open>k\<close> input pairs, and the fields of the later phases are untouched.
\<close>

definition map_inv ::
  "('k1, 'v1, 'k2, 'v2, 'k3, 'v3) MapReduceClient \<Rightarrow> ('k1 \<times> 'v1) list
     \<Rightarrow> ('k3 \<times> 'v3) list \<Rightarrow> nat
     \<Rightarrow> pc list \<times> ('k1, 'v1, 'k2, 'v2, 'k3, 'v3) JobContext \<times> nat list \<Rightarrow> bool" where
  "map_inv client input out0 nThreads s =
     (case s of (pcs, c, calls) \<Rightarrow>
        length pcs = nThreads \<and> Crashed \<notin> set pcs
        \<and> inputVec c = input \<and> length (intermediateVecs c) = nThreads
        \<and> outputVec c = out0 \<and> shuffledData c = [] \<and> shuffleCounter c = 0
        \<and> nextReduceIndex c = 0
        \<and> (\<exists>k. calls = [0..<k] \<and> k \<le> length input
              \<and> nextInputIndex c = of_nat (k + exited_count pcs)
              \<and> (0 < exited_count pcs \<longrightarrow> k = length input)
              \<and> mset (concat (intermediateVecs c))
                  = mset (concat (map (map_fn client) (take k input)))))"

text \<open>
  A bound on the steps that a worker with program counter \<open>p\<close> still takes before it
  has left a dispatch loop over \<open>n\<close> indices of which \<open>k\<close> have been handed out. A
  schedule is fair for \<open>nThreads\<close> workers and \<open>n\<close> indices when it gives every worker
  that many steps from the start.
\<close>

definition steps_left :: "nat \<Rightarrow> nat \<Rightarrow> pc \<Rightarrow> nat" where
  "steps_left n k p =
     (case p of Entry \<Rightarrow> n - k + 2 | Loop \<Rightarrow> n - k + 1 | Exited \<Rightarrow> 0 | Crashed \<Rightarrow> 0)"

definition fair_schedule :: "nat \<Rightarrow> nat \<Rightarrow> nat list \<Rightarrow> bool" where
  "fair_schedule nThreads n sched = list_all (\<lambda>tid. n + 2 \<le> count_list sched tid) [0..<nThreads]"

text \<open>
  A reduce function is order-insensitive when, on the groups that the shuffle forms
  (nonempty, with no two keys distinguishable), the multiset of the pairs it emits
  depends only on the multiset of the pairs of the group, not on their order.
\<close>

definition order_insensitive ::
  "('k2 \<Rightarrow> 'k2 \<Rightarrow> bool) \<Rightarrow> (('k2 \<times> 'v2) list \<Rightarrow> ('k3 \<times> 'v3) list) \<Rightarrow> bool" where
  "order_insensitive lt f =
     (\<forall>g g'. g \<noteq> [] \<and> uniform_group lt g \<and> mset g = mset g' \<longrightarrow> mset (f g) = mset (f g'))"

section \<open>Properties of the progress word\<close>

lemma MAX_31_BITS_mask: "MAX_31_BITS = mask 31" by (simp add: MAX_31_BITS_def mask_eq_exp_minus_1)
lemma STAGE_MASK_mask: "STAGE_MASK = mask 2" by (simp add: STAGE_MASK_def mask_eq_exp_minus_1)

lemma stage_of_stage_val: "stage_of (ucast (stage_val s)) = s"
  by (cases s) (simp_all add: stage_of_def)

lemma stage_val_mask: "stage_val s AND mask 2 = stage_val s"
  by (cases s) (simp_all add: mask_eq_exp_minus_1)

lemma decodeTotal_encodeState: "decodeTotal (encodeState s p t) = t AND mask 31"
  unfolding decodeTotal_def encodeState_def MAX_31_BITS_mask STAGE_MASK_mask
    STAGE_SHIFT_def PROCESSED_SHIFT_def
  by (rule bit_eqI) (auto simp add: bit_simps)

lemma decodeProcessed_encodeState: "decodeProcessed (encodeState s p t) = p AND mask 31"
  unfolding decodeProcessed_def encodeState_def MAX_31_BITS_mask STAGE_MASK_mask
    STAGE_SHIFT_def PROCESSED_SHIFT_def
  by (rule bit_eqI) (auto simp add: bit_simps)

lemma decodeStage_encodeState: "decodeStage (encodeState s p t) = s"
proof -
  have "drop_bit 62 (encodeState s p t) AND ucast (mask 2 :: 32 word)
          = ucast (stage_val s AND mask 2)"
    unfolding encodeState_def MAX_31_BITS_mask STAGE_MASK_mask STAGE_SHIFT_def PROCESSED_SHIFT_def
    by (rule bit_eqI) (auto simp add: bit_simps)
  then show ?thesis
    by (simp add: decodeStage_def STAGE_MASK_mask STAGE_SHIFT_def stage_val_mask stage_of_stage_val)
qed

lemma decodeProcessed_mask: "decodeProcessed w AND mask 31 = decodeProcessed w"
  unfolding decodeProcessed_def MAX_31_BITS_mask PROCESSED_SHIFT_def
  by (rule bit_eqI) (auto simp add: bit_simps)

lemma decodeTotal_mask: "decodeTotal w AND mask 31 = decodeTotal w"
  unfolding decodeTotal_def MAX_31_BITS_mask
  by (rule bit_eqI) (auto simp add: bit_simps)

lemma unat_and_mask31: "unat ((x :: 32 word) AND mask 31) = unat x mod 2 ^ 31"
  by (simp add: take_bit_eq_mask[symmetric] unsigned_take_bit_eq take_bit_eq_mod unat_mod)

lemma mask31_id: "unat (x :: 32 word) \<le> 2 ^ 31 - 1 \<Longrightarrow> x AND mask 31 = x"
  by (rule word_unat_eq_iff[THEN iffD2]) (simp add: unat_and_mask31)

lemma decodeProcessed_bound: "unat (decodeProcessed w) \<le> 2 ^ 31 - 1"
proof -
  have "unat (decodeProcessed w) = unat (decodeProcessed w) mod 2 ^ 31"
    using unat_and_mask31[of "decodeProcessed w"] by (simp add: decodeProcessed_mask)
  moreover have "unat (decodeProcessed w) mod 2 ^ 31 < 2 ^ 31" by simp
  ultimately show ?thesis by linarith
qed

lemma decodeProcessed_newVal:
  "unat (decodeProcessed (incrementProcessed_newVal w)) = (unat (decodeProcessed w) + 1) mod 2 ^ 31"
proof -
  have "unat (decodeProcessed w + 1) = unat (decodeProcessed w) + 1"
    using decodeProcessed_bound[of w] by (simp add: unat_word_ariths)
  then show ?thesis
    by (simp add: incrementProcessed_newVal_def decodeProcessed_encodeState unat_and_mask31)
qed

lemma incrementProcessed_cas_last:
  "incrementProcessed_cas seen w = incrementProcessed_newVal (last (w # seen))"
  by (induction seen arbitrary: w) simp_all

lemma decodeProcessed_funpow:
  "unat (decodeProcessed (state ((incrementProcessed ^^ n) sm)))
     = (unat (decodeProcessed (state sm)) + n) mod 2 ^ 31"
proof (induction n)
  case 0
  show ?case using decodeProcessed_bound[of "state sm"] by simp
next
  case (Suc n)
  let ?sm = "(incrementProcessed ^^ n) sm"
  have "unat (decodeProcessed (state (incrementProcessed ?sm)))
          = (unat (decodeProcessed (state ?sm)) + 1) mod 2 ^ 31"
    by (simp add: incrementProcessed_def decodeProcessed_newVal)
  also have "\<dots> = ((unat (decodeProcessed (state sm)) + n) mod 2 ^ 31 + 1) mod 2 ^ 31"
    by (simp only: Suc)
  also have "\<dots> = (unat (decodeProcessed (state sm)) + Suc n) mod 2 ^ 31"
    by (simp add: mod_Suc_eq)
  finally show ?case by simp
qed

lemma decodeStage_newVal: "decodeStage (incrementProcessed_newVal w) = decodeStage w"
  by (simp add: incrementProcessed_newVal_def decodeStage_encodeState)

lemma decodeTotal_newVal: "decodeTotal (incrementProcessed_newVal w) = decodeTotal w"
  by (simp add: incrementProcessed_newVal_def decodeTotal_encodeState decodeTotal_mask)

text \<open>
  C6. For every stage \<open>s\<close> and all \<open>p\<close>, \<open>t\<close> of at most \<open>2^31 - 1\<close>, the three
  decoders recover \<open>(s, p, t)\<close> from \<open>encodeState s p t\<close>; a single load of a word
  stored by \<open>updateState\<close>, decoded by \<open>getState\<close>, is that triple.
\<close>

theorem encodeState_roundtrip:
  "unat p \<le> 2 ^ 31 - 1 \<Longrightarrow> unat t \<le> 2 ^ 31 - 1 \<Longrightarrow>
     decodeStage (encodeState s p t) = s
     \<and> decodeProcessed (encodeState s p t) = p
     \<and> decodeTotal (encodeState s p t) = t
     \<and> getState (updateState s p t sm) = (s, p, t)"
  by (simp add: decodeStage_encodeState decodeProcessed_encodeState decodeTotal_encodeState
        mask31_id getState_def updateState_def)

theorem encodeState_roundtrip_witness:
  "unat (5 :: 32 word) \<le> 2 ^ 31 - 1 \<and> unat (0x7FFFFFFF :: 32 word) \<le> 2 ^ 31 - 1
     \<and> decodeStage (encodeState SHUFFLE_STAGE 5 0x7FFFFFFF) = SHUFFLE_STAGE
     \<and> decodeProcessed (encodeState SHUFFLE_STAGE 5 0x7FFFFFFF) = 5
     \<and> decodeTotal (encodeState SHUFFLE_STAGE 5 0x7FFFFFFF) = 0x7FFFFFFF
     \<and> getState (updateState SHUFFLE_STAGE 5 0x7FFFFFFF \<lparr>state = 0\<rparr>)
           = (SHUFFLE_STAGE, 5, 0x7FFFFFFF)"
  using encodeState_roundtrip [of 5 "0x7FFFFFFF" SHUFFLE_STAGE "\<lparr>state = 0\<rparr>"] by simp

text \<open>
  C7. The decoded processed field of any word is at most \<open>2^31 - 1\<close>. One call of
  \<open>incrementProcessed\<close> that replaces a word with decoded processed \<open>p\<close> (the last
  word its compare-and-swap loop read) leaves decoded processed \<open>(p + 1) mod 2^31\<close>,
  and \<open>n\<close> calls in a row leave \<open>(p + n) mod 2^31\<close>, again at most \<open>2^31 - 1\<close>.
\<close>

theorem incrementProcessed_processed:
  "unat (decodeProcessed w) \<le> 2 ^ 31 - 1
   \<and> unat (decodeProcessed (incrementProcessed_cas seen w))
        = (unat (decodeProcessed (last (w # seen))) + 1) mod 2 ^ 31
   \<and> unat (decodeProcessed (state ((incrementProcessed ^^ n) sm)))
        = (unat (decodeProcessed (state sm)) + n) mod 2 ^ 31
   \<and> unat (decodeProcessed (state ((incrementProcessed ^^ n) sm))) \<le> 2 ^ 31 - 1"
proof -
  have "unat (decodeProcessed (incrementProcessed_cas seen w))
          = (unat (decodeProcessed (last (w # seen))) + 1) mod 2 ^ 31"
    by (simp only: incrementProcessed_cas_last decodeProcessed_newVal)
  then show ?thesis
    using decodeProcessed_bound [of w] decodeProcessed_funpow [of n sm]
      decodeProcessed_bound [of "state ((incrementProcessed ^^ n) sm)"]
    by blast
qed

text \<open>
  C10. \<open>incrementProcessed\<close> changes only the processed field: the decoded stage and
  the decoded total of the word it writes are those of the word it replaces.
\<close>

theorem incrementProcessed_frame:
  "decodeStage (incrementProcessed_cas seen w) = decodeStage (last (w # seen))
   \<and> decodeTotal (incrementProcessed_cas seen w) = decodeTotal (last (w # seen))
   \<and> decodeStage (state (incrementProcessed sm)) = decodeStage (state sm)
   \<and> decodeTotal (state (incrementProcessed sm)) = decodeTotal (state sm)"
proof -
  have "incrementProcessed_cas seen w = incrementProcessed_newVal (last (w # seen))"
    by (rule incrementProcessed_cas_last)
  moreover have "state (incrementProcessed sm) = incrementProcessed_newVal (state sm)"
    by (simp add: incrementProcessed_def)
  ultimately show ?thesis
    by (simp only: decodeStage_newVal decodeTotal_newVal simp_thms)
qed

section \<open>The transition into the shuffle stage\<close>

lemma totalPairs_foldl:
  "foldl (\<lambda>acc vec. acc + of_nat (length vec)) a vecs
     = a + (of_nat (length (concat vecs)) :: 64 word)"
  by (induction vecs arbitrary: a) (simp_all add: add.assoc)

lemma totalPairs_concat: "totalPairs vecs = of_nat (length (concat vecs))"
  by (simp add: totalPairs_def totalPairs_foldl)

lemma unat_total_mask31:
  "unat ((ucast (of_nat n :: 64 word) :: 32 word) AND mask 31) = n mod 2 ^ 31"
proof -
  have d1: "(2::nat) ^ 31 dvd 2 ^ 32" and d2: "(2::nat) ^ 32 dvd 2 ^ 64"
    by (simp_all add: le_imp_power_dvd)
  have "unat ((ucast (of_nat n :: 64 word) :: 32 word) AND mask 31)
          = ((n mod 2 ^ 64) mod 2 ^ 32) mod 2 ^ 31"
    by (simp add: unat_and_mask31 unsigned_ucast_eq unat_of_nat take_bit_eq_mod)
  also have "\<dots> = n mod 2 ^ 31"
    by (simp only: mod_mod_cancel [OF d2] mod_mod_cancel [OF d1])
  finally show ?thesis .
qed

lemma single_mapped_eval:
  "intermediateVecs single_mapped = [[(1, 10), (2, 10)]]"
  "inputVec single_mapped = [(1, 10)]"
  "decodeTotal (state (stateManager single_mapped)) = 1"
  by (simp_all add: single_mapped_def single_job_def example_client_def mapPhase_step_def
        mapPhase_enter_def mapPhase_iter_def JobContext_init_def JobStateManager_init_def
        THREAD_ZERO_def emit2_def setStage_def incrementProcessed_def setStage_newVal_def
        incrementProcessed_newVal_def decodeTotal_encodeState mask_eq_exp_minus_1)

lemma getState_threadFunc_setStage:
  "getState (stateManager (threadFunc_setStage ctx))
     = (SHUFFLE_STAGE, 0, decodeTotal (state (stateManager ctx)))"
  by (simp add: threadFunc_setStage_def getState_def setStage_def setStage_newVal_def
        decodeStage_encodeState decodeProcessed_encodeState decodeTotal_encodeState
        decodeTotal_mask)

text \<open>
  C8, as stated, fails. In \<open>single_mapped\<close> the input has one pair and the buffers hold
  two. After \<^verbatim>\<open>setStage(SHUFFLE_STAGE)\<close> in \<^verbatim>\<open>threadFunc\<close> the word decodes to
  stage SHUFFLE with total 1, the size of the input, and it is not the encoding of
  (SHUFFLE, 0, 2).
\<close>

theorem shuffle_transition_counterexample:
  "getState (stateManager (threadFunc_setStage single_mapped)) = (SHUFFLE_STAGE, 0, 1)
   \<and> length (inputVec single_mapped) = 1
   \<and> totalPairs (intermediateVecs single_mapped) = 2
   \<and> state (stateManager (threadFunc_setStage single_mapped))
       \<noteq> encodeState SHUFFLE_STAGE 0 (ucast (totalPairs (intermediateVecs single_mapped)))"
proof -
  have g: "getState (stateManager (threadFunc_setStage single_mapped)) = (SHUFFLE_STAGE, 0, 1)"
    by (simp add: getState_threadFunc_setStage single_mapped_eval)
  have t: "totalPairs (intermediateVecs single_mapped) = 2"
    by (simp add: single_mapped_eval totalPairs_def)
  have "decodeTotal (state (stateManager (threadFunc_setStage single_mapped))) = 1"
    using g by (simp add: getState_def Let_def)
  moreover have "decodeTotal (encodeState SHUFFLE_STAGE 0 (ucast (2 :: 64 word))) = 2"
    by (simp add: decodeTotal_encodeState mask_eq_exp_minus_1)
  ultimately have "state (stateManager (threadFunc_setStage single_mapped))
       \<noteq> encodeState SHUFFLE_STAGE 0 (ucast (totalPairs (intermediateVecs single_mapped)))"
    unfolding t by auto
  with g t show ?thesis by (simp add: single_mapped_eval)
qed

text \<open>
  C8, amended. Thread 0 enters the shuffle stage in two atomic updates. The first,
  \<^verbatim>\<open>setStage(SHUFFLE_STAGE)\<close>, leaves (SHUFFLE, 0, \<open>t\<close>) where \<open>t\<close> is the total of
  the word it replaces. The second, \<^verbatim>\<open>setTotal\<close> at the start of
  \<^verbatim>\<open>shufflePhase\<close>, leaves stage SHUFFLE, processed 0 and as total the sum of the
  sizes of all buffers, modulo \<open>2^31\<close>.
\<close>

theorem shuffle_transition_two_steps:
  "getState (stateManager (threadFunc_setStage ctx))
     = (SHUFFLE_STAGE, 0, decodeTotal (state (stateManager ctx)))
   \<and> decodeStage (state (stateManager (shufflePhase_setTotal (threadFunc_setStage ctx))))
       = SHUFFLE_STAGE
   \<and> decodeProcessed (state (stateManager (shufflePhase_setTotal (threadFunc_setStage ctx))))
       = 0
   \<and> unat (decodeTotal (state (stateManager (shufflePhase_setTotal (threadFunc_setStage ctx)))))
       = length (concat (intermediateVecs ctx)) mod 2 ^ 31"
  by (simp add: threadFunc_setStage_def shufflePhase_setTotal_def getState_def setStage_def
        setTotal_def setStage_newVal_def setTotal_newVal_def decodeStage_encodeState
        decodeProcessed_encodeState decodeTotal_encodeState decodeTotal_mask
        totalPairs_concat unat_total_mask31)

section \<open>The null handle\<close>

text \<open>
  C9. \<^verbatim>\<open>startMapReduceJob\<close> on an empty input returns the null handle and leaves
  the heap of contexts as it was, for every client, output vector and thread count; on
  the null handle \<^verbatim>\<open>getJobState\<close> writes stage REDUCE and percentage 100, and
  \<^verbatim>\<open>waitForJob\<close> and \<^verbatim>\<open>closeJobHandle\<close> return with the heap unchanged.
\<close>

theorem null_handle:
  "startMapReduceJob client [] output multiThreadLevel heap = (None, heap)
   \<and> getJobState float_pct None heap = Some \<lparr>stage = REDUCE_STAGE, percentage = 100\<rparr>
   \<and> waitForJob None heap = Some heap
   \<and> closeJobHandle None heap = Some heap"
  by (simp add: startMapReduceJob_def getJobState_def waitForJob_def closeJobHandle_def
        MAX_PERCENTAGE_def)

section \<open>Properties of the shuffle\<close>

lemma swo_irrefl: "strict_weak_order lt \<Longrightarrow> \<not> lt x x"
  by (simp add: strict_weak_order_def)

lemma swo_trans: "strict_weak_order lt \<Longrightarrow> lt x y \<Longrightarrow> lt y z \<Longrightarrow> lt x z"
  unfolding strict_weak_order_def by blast

lemma swo_asym: "strict_weak_order lt \<Longrightarrow> lt x y \<Longrightarrow> \<not> lt y x"
  using swo_trans swo_irrefl by metis

lemma equiv_key_trans:
  "strict_weak_order lt \<Longrightarrow> equiv_key lt x y \<Longrightarrow> equiv_key lt y z \<Longrightarrow> equiv_key lt x z"
  unfolding strict_weak_order_def by blast

lemma equiv_key_sym: "equiv_key lt x y \<Longrightarrow> equiv_key lt y x"
  by (simp add: equiv_key_def)

lemma equiv_key_refl: "strict_weak_order lt \<Longrightarrow> equiv_key lt x x"
  by (simp add: equiv_key_def swo_irrefl)

lemma swo_negtrans:
  assumes swo: "strict_weak_order lt" and xy: "\<not> lt x y" and yz: "\<not> lt y z"
  shows "\<not> lt x z"
proof
  assume xz: "lt x z"
  have "\<not> lt y x" using swo_trans [OF swo _ xz] yz by blast
  with xy have e1: "equiv_key lt x y" by (simp add: equiv_key_def)
  have "\<not> lt z y" using swo_trans [OF swo xz] xy by blast
  with yz have e2: "equiv_key lt y z" by (simp add: equiv_key_def)
  from equiv_key_trans [OF swo e1 e2] xz show False by (simp add: equiv_key_def)
qed

lemma lt_equiv_right:
  assumes swo: "strict_weak_order lt" and am: "lt a m" and e: "equiv_key lt b m"
  shows "lt a b"
proof (rule ccontr)
  assume "\<not> lt a b"
  moreover have "\<not> lt b m" using e by (simp add: equiv_key_def)
  ultimately show False using swo_negtrans [OF swo] am by blast
qed

lemma findMaxKey_None:
  "findMaxKey lt vecs mk = None \<longleftrightarrow> mk = None \<and> (\<forall>vec\<in>set vecs. vec = [])"
  by (induction vecs arbitrary: mk) (auto simp: Let_def split: option.splits)

lemma findMaxKey_mem:
  "findMaxKey lt vecs mk = Some m \<Longrightarrow>
     mk = Some m \<or> (\<exists>vec\<in>set vecs. vec \<noteq> [] \<and> m = fst (last vec))"
proof (induction vecs arbitrary: mk)
  case Nil
  then show ?case by simp
next
  case (Cons vec vecs)
  then show ?case
    by (fastforce simp: Let_def split: option.splits if_splits)
qed

lemma findMaxKey_max:
  assumes swo: "strict_weak_order lt"
  shows "findMaxKey lt vecs mk = Some m \<Longrightarrow>
     (\<forall>vec\<in>set vecs. vec \<noteq> [] \<longrightarrow> \<not> lt m (fst (last vec)))
     \<and> (\<forall>m0. mk = Some m0 \<longrightarrow> \<not> lt m m0)"
proof (induction vecs arbitrary: mk)
  case Nil
  then show ?case by (simp add: swo_irrefl [OF swo])
next
  case (Cons vec vecs)
  show ?case
  proof (cases "vec = []")
    case True
    with Cons show ?thesis by simp
  next
    case False
    let ?c = "fst (last vec)"
    show ?thesis
    proof (cases mk)
      case None
      with False Cons.prems have "findMaxKey lt vecs (Some ?c) = Some m" by (simp add: Let_def)
      from Cons.IH [OF this] None False show ?thesis by simp
    next
      case (Some m0)
      show ?thesis
      proof (cases "lt m0 ?c")
        case True
        with Some False Cons.prems have "findMaxKey lt vecs (Some ?c) = Some m"
          by (simp add: Let_def)
        from Cons.IH [OF this] have rest: "\<forall>vec\<in>set vecs. vec \<noteq> [] \<longrightarrow> \<not> lt m (fst (last vec))"
          and c: "\<not> lt m ?c" by simp_all
        have "\<not> lt m m0" using swo_trans [OF swo _ True] c by blast
        with rest c Some show ?thesis by simp
      next
        case nlt: False
        with Some False Cons.prems have "findMaxKey lt vecs (Some m0) = Some m"
          by (simp add: Let_def)
        from Cons.IH [OF this] have rest: "\<forall>vec\<in>set vecs. vec \<noteq> [] \<longrightarrow> \<not> lt m (fst (last vec))"
          and m0: "\<not> lt m m0" by simp_all
        have "\<not> lt m ?c" using swo_negtrans [OF swo m0 nlt] .
        with rest m0 Some show ?thesis by simp
      qed
    qed
  qed
qed

lemma drainVec_eq:
  "drainVec lt m vec g sm =
     (keep_part lt m vec, g @ moved_part lt m vec,
      (incrementProcessed ^^ length (moved_part lt m vec)) sm)"
proof (induction lt m vec g sm rule: drainVec.induct)
  case (1 lt maxKey vec currentGroup sm)
  show ?case
  proof (cases "vec \<noteq> [] \<and> \<not> lt (fst (last vec)) maxKey \<and> \<not> lt maxKey (fst (last vec))")
    case True
    then have r: "rev vec = last vec # rev (butlast vec)"
      by (metis append_butlast_last_id rev.simps(2) rev_rev_ident rev_singleton_conv rev_append append_Cons append_Nil)
    from True have e: "equiv_key lt (fst (last vec)) maxKey" by (simp add: equiv_key_def)
    show ?thesis
      using True 1 [OF True] e
      by (subst drainVec.simps) (simp add: keep_part_def moved_part_def r funpow_swap1)
  next
    case False
    then have "vec = [] \<or> \<not> equiv_key lt (fst (last vec)) maxKey" by (auto simp: equiv_key_def)
    then have "vec = [] \<or> \<not> equiv_key lt (fst (hd (rev vec))) maxKey"
      by (auto simp: hd_rev)
    then have "takeWhile (\<lambda>p. equiv_key lt (fst p) maxKey) (rev vec) = []"
      and "dropWhile (\<lambda>p. equiv_key lt (fst p) maxKey) (rev vec) = rev vec"
      by (cases "rev vec"; auto)+
    moreover have "drainVec lt maxKey vec currentGroup sm = (vec, currentGroup, sm)"
      using False by (subst drainVec.simps) auto
    ultimately show ?thesis
      by (simp add: keep_part_def moved_part_def)
  qed
qed

lemma drainAll_eq:
  "drainAll lt m vecs g sm =
     (map (keep_part lt m) vecs, g @ concat (map (moved_part lt m) vecs),
      (incrementProcessed ^^ length (concat (map (moved_part lt m) vecs))) sm)"
proof (induction vecs arbitrary: g sm)
  case Nil
  show ?case by simp
next
  case (Cons vec vecs)
  have "(incrementProcessed ^^ length (concat (map (moved_part lt m) vecs)))
          ((incrementProcessed ^^ length (moved_part lt m vec)) sm)
        = (incrementProcessed ^^ (length (concat (map (moved_part lt m) vecs))
                                   + length (moved_part lt m vec))) sm"
    by (simp only: funpow_add comp_apply)
  also have "\<dots> = (incrementProcessed ^^ length (concat (map (moved_part lt m) (vec # vecs)))) sm"
    by (simp add: add.commute)
  finally show ?case
    by (simp add: drainVec_eq Cons.IH)
qed

lemma keep_moved_append: "keep_part lt m vec @ rev (moved_part lt m vec) = vec"
  by (simp only: keep_part_def moved_part_def rev_append [symmetric] takeWhile_dropWhile_id
        rev_rev_ident)

lemma mset_keep_moved: "mset (keep_part lt m vec) + mset (moved_part lt m vec) = mset vec"
proof -
  have "mset (keep_part lt m vec @ rev (moved_part lt m vec)) = mset vec"
    by (simp only: keep_moved_append)
  then show ?thesis by simp
qed

lemma mset_concat_keep_moved:
  "mset (concat (map (keep_part lt m) vecs)) + mset (concat (map (moved_part lt m) vecs))
     = mset (concat vecs)"
proof (induction vecs)
  case Nil
  show ?case by simp
next
  case (Cons vec vecs)
  have "mset (concat (map (keep_part lt m) (vec # vecs)))
          + mset (concat (map (moved_part lt m) (vec # vecs)))
        = (mset (keep_part lt m vec) + mset (moved_part lt m vec))
          + (mset (concat (map (keep_part lt m) vecs))
             + mset (concat (map (moved_part lt m) vecs)))"
    by simp
  also have "\<dots> = mset vec + mset (concat vecs)"
    by (simp only: mset_keep_moved Cons.IH)
  finally show ?case by simp
qed

lemma moved_part_equiv: "p \<in> set (moved_part lt m vec) \<Longrightarrow> equiv_key lt (fst p) m"
  unfolding moved_part_def by (rule set_takeWhileD [THEN conjunct2])

lemma moved_part_nonempty:
  assumes "strict_weak_order lt" "vec \<noteq> []" "fst (last vec) = m"
  shows "moved_part lt m vec \<noteq> []"
proof -
  from assms(2) obtain x xs where r: "rev vec = x # xs" by (cases "rev vec") auto
  then have "x = last vec" using assms(2) by (metis hd_rev list.sel(1))
  with assms have "equiv_key lt (fst x) m" by (simp add: equiv_key_refl)
  with r show ?thesis by (simp add: moved_part_def)
qed

lemma sorted_vec_keep_part: "sorted_vec lt vec \<Longrightarrow> sorted_vec lt (keep_part lt m vec)"
proof -
  assume "sorted_vec lt vec"
  then have "sorted_vec lt (keep_part lt m vec @ rev (moved_part lt m vec))"
    by (simp only: keep_moved_append)
  then show ?thesis by (simp add: sorted_vec_def sorted_wrt_append)
qed

lemma dropWhile_below:
  assumes swo: "strict_weak_order lt"
  shows "sorted_wrt (\<lambda>a b. \<not> lt (fst a) (fst b)) xs \<Longrightarrow> \<forall>x\<in>set xs. \<not> lt m (fst x) \<Longrightarrow>
         \<forall>z\<in>set (dropWhile (\<lambda>p. equiv_key lt (fst p) m) xs). lt (fst z) m"
proof (induction xs)
  case Nil
  show ?case by simp
next
  case (Cons x xs)
  show ?case
  proof (cases "equiv_key lt (fst x) m")
    case True
    with Cons show ?thesis by simp
  next
    case False
    with Cons.prems(2) have xm: "lt (fst x) m" by (simp add: equiv_key_def)
    have "lt (fst z) m" if "z \<in> set xs" for z
    proof (rule ccontr)
      assume "\<not> lt (fst z) m"
      moreover from that Cons.prems(1) have "\<not> lt (fst x) (fst z)" by simp
      ultimately have "\<not> lt (fst x) m" using swo_negtrans [OF swo] by blast
      with xm show False by simp
    qed
    with False xm show ?thesis by simp
  qed
qed

lemma sorted_vec_back_max:
  assumes swo: "strict_weak_order lt" and s: "sorted_vec lt vec" and p: "p \<in> set vec"
  shows "\<not> lt (fst (last vec)) (fst p)"
proof -
  from p have ne: "vec \<noteq> []" by auto
  then have v: "vec = butlast vec @ [last vec]" by simp
  show ?thesis
  proof (cases "p = last vec")
    case True
    then show ?thesis by (simp add: swo_irrefl [OF swo])
  next
    case False
    with p v have "p \<in> set (butlast vec)" by (metis Un_iff empty_iff insert_iff list.set(1) list.set(2) set_append)
    moreover from s v have "sorted_wrt (\<lambda>a b. \<not> pair_less lt b a) (butlast vec @ [last vec])"
      by (simp add: sorted_vec_def)
    ultimately show ?thesis by (simp add: sorted_wrt_append pair_less_def)
  qed
qed

lemma keep_part_below:
  assumes swo: "strict_weak_order lt" and s: "sorted_vec lt vec"
    and mx: "vec \<noteq> [] \<Longrightarrow> \<not> lt m (fst (last vec))" and p: "p \<in> set (keep_part lt m vec)"
  shows "lt (fst p) m"
proof -
  from s have "sorted_wrt (\<lambda>a b. \<not> lt (fst a) (fst b)) (rev vec)"
    by (simp add: sorted_vec_def sorted_wrt_rev pair_less_def)
  moreover have "\<forall>x\<in>set (rev vec). \<not> lt m (fst x)"
  proof
    fix x assume "x \<in> set (rev vec)"
    then have x: "x \<in> set vec" by simp
    then have "vec \<noteq> []" by auto
    from swo_negtrans [OF swo mx [OF this] sorted_vec_back_max [OF swo s x]]
    show "\<not> lt m (fst x)" .
  qed
  ultimately have "\<forall>z\<in>set (dropWhile (\<lambda>p. equiv_key lt (fst p) m) (rev vec)). lt (fst z) m"
    by (rule dropWhile_below [OF swo])
  with p show ?thesis by (simp add: keep_part_def)
qed

lemma shuffleGroup_eq:
  "shuffleGroup lt m ctx =
     ctx\<lparr>intermediateVecs := map (keep_part lt m) (intermediateVecs ctx),
         shuffledData := shuffledData ctx @ [concat (map (moved_part lt m) (intermediateVecs ctx))],
         stateManager := (incrementProcessed ^^
                            length (concat (map (moved_part lt m) (intermediateVecs ctx))))
                           (stateManager ctx),
         shuffleCounter := shuffleCounter ctx + 1\<rparr>"
  by (simp add: shuffleGroup_def drainAll_eq)

lemma map_empty_id: "\<forall>x\<in>set xs. x = [] \<Longrightarrow> map (\<lambda>x. []) xs = xs"
  by (induction xs) auto

lemma shuffled_ctx_Nil:
  "\<forall>vec\<in>set (intermediateVecs ctx). vec = [] \<Longrightarrow> shuffled_ctx ctx [] = ctx"
proof -
  assume "\<forall>vec\<in>set (intermediateVecs ctx). vec = []"
  then have "map (\<lambda>vec. []) (intermediateVecs ctx) = intermediateVecs ctx"
    by (rule map_empty_id)
  then show ?thesis by (simp add: shuffled_ctx_def)
qed

lemma shuffled_ctx_step:
  "shuffled_ctx (shuffleGroup lt m ctx) G
     = shuffled_ctx ctx (concat (map (moved_part lt m) (intermediateVecs ctx)) # G)"
proof -
  let ?g = "concat (map (moved_part lt m) (intermediateVecs ctx))"
  have "(incrementProcessed ^^ length (concat G)) ((incrementProcessed ^^ length ?g) (stateManager ctx))
          = (incrementProcessed ^^ (length (concat G) + length ?g)) (stateManager ctx)"
    by (simp only: funpow_add comp_apply)
  also have "\<dots> = (incrementProcessed ^^ length (concat (?g # G))) (stateManager ctx)"
    by (simp add: add.commute)
  finally show ?thesis
    by (simp add: shuffled_ctx_def shuffleGroup_eq add.assoc)
qed


lemma uniform_group_moved:
  assumes swo: "strict_weak_order lt"
  shows "uniform_group lt (concat (map (moved_part lt m) vecs))"
proof -
  have e: "equiv_key lt (fst p) m" if "p \<in> set (concat (map (moved_part lt m) vecs))" for p
    using that by (auto dest: moved_part_equiv)
  show ?thesis
    unfolding uniform_group_def
  proof (intro ballI)
    fix a b
    assume a: "a \<in> set (concat (map (moved_part lt m) vecs))"
      and b: "b \<in> set (concat (map (moved_part lt m) vecs))"
    have "equiv_key lt (fst a) m" by (rule e [OF a])
    moreover have "equiv_key lt m (fst b)" by (rule equiv_key_sym [OF e [OF b]])
    ultimately have "equiv_key lt (fst a) (fst b)" by (rule equiv_key_trans [OF swo])
    then
    show "\<not> lt (fst a) (fst b) \<and> \<not> lt (fst b) (fst a)" by (simp add: equiv_key_def)
  qed
qed

lemma shuffleLoop_groups:
  assumes swo: "strict_weak_order lt"
  shows "list_all (sorted_vec lt) (intermediateVecs ctx) \<Longrightarrow>
     \<exists>G. shuffleLoop lt ctx = Some (shuffled_ctx ctx G)
          \<and> mset (concat G) = mset (concat (intermediateVecs ctx))
          \<and> list_all (\<lambda>g. g \<noteq> []) G
          \<and> list_all (uniform_group lt) G
          \<and> descending_groups lt G"
proof (induction "length (concat (intermediateVecs ctx))" arbitrary: ctx rule: less_induct)
  case less
  let ?vecs = "intermediateVecs ctx"
  show ?case
  proof (cases "findMaxKey lt ?vecs None")
    case None
    then have empty: "\<forall>vec\<in>set ?vecs. vec = []" by (simp add: findMaxKey_None)
    then have "concat ?vecs = []" by simp
    moreover have "shuffleLoop lt ctx = Some (shuffled_ctx ctx [])"
      using None by (subst shuffleLoop.simps) (simp add: shuffled_ctx_Nil [OF empty])
    ultimately show ?thesis
      by (intro exI [of _ "[]"]) (simp add: descending_groups_def)
  next
    case (Some m)
    let ?ctx1 = "shuffleGroup lt m ctx"
    let ?g = "concat (map (moved_part lt m) ?vecs)"
    have vecs1: "intermediateVecs ?ctx1 = map (keep_part lt m) ?vecs"
      by (simp add: shuffleGroup_eq)
    from findMaxKey_mem [OF Some] obtain vec where vec: "vec \<in> set ?vecs" "vec \<noteq> []"
      "m = fst (last vec)" by auto
    then have "moved_part lt m vec \<noteq> []" by (simp add: moved_part_nonempty [OF swo])
    with vec(1) have g_ne: "?g \<noteq> []" by auto
    have split: "mset (concat (intermediateVecs ?ctx1)) + mset ?g = mset (concat ?vecs)"
      by (simp only: vecs1 mset_concat_keep_moved)
    then have "size (mset (concat (intermediateVecs ?ctx1)) + mset ?g) = size (mset (concat ?vecs))"
      by (rule arg_cong)
    then have "length (concat (intermediateVecs ?ctx1)) + length ?g = length (concat ?vecs)"
      by (simp only: size_union size_mset)
    moreover have "0 < length ?g" using g_ne length_greater_0_conv by blast
    ultimately have smaller: "length (concat (intermediateVecs ?ctx1)) < length (concat ?vecs)"
      by linarith
    have sorted1: "list_all (sorted_vec lt) (intermediateVecs ?ctx1)"
      using less.prems by (simp add: vecs1 list_all_iff sorted_vec_keep_part)
    from less.hyps [OF smaller sorted1] obtain G1 where
      run: "shuffleLoop lt ?ctx1 = Some (shuffled_ctx ?ctx1 G1)"
      and ms: "mset (concat G1) = mset (concat (intermediateVecs ?ctx1))"
      and ne: "list_all (\<lambda>g. g \<noteq> []) G1"
      and un: "list_all (uniform_group lt) G1"
      and de: "descending_groups lt G1"
      by blast
    have "shuffleLoop lt ctx = shuffleLoop lt ?ctx1"
      using Some by (subst shuffleLoop.simps) simp
    with run have r: "shuffleLoop lt ctx = Some (shuffled_ctx ctx (?g # G1))"
      by (simp only: shuffled_ctx_step)
    have m: "mset (concat (?g # G1)) = mset (concat ?vecs)"
      using ms split by (simp add: add.commute)
    have above: "group_above lt ?g g'" if g': "g' \<in> set G1" for g'
      unfolding group_above_def
    proof (intro ballI)
      fix a b assume a: "a \<in> set ?g" and b: "b \<in> set g'"
      from b g' have "b \<in> set (concat G1)" by auto
      then have "b \<in># mset (concat G1)" by simp
      then have "b \<in> set (concat (map (keep_part lt m) ?vecs))"
        by (simp only: ms vecs1 set_mset_mset)
      then obtain v where v: "v \<in> set ?vecs" and bv: "b \<in> set (keep_part lt m v)" by auto
      from less.prems v have sv: "sorted_vec lt v" by (simp add: list_all_iff)
      from findMaxKey_max [OF swo Some] v have "v \<noteq> [] \<Longrightarrow> \<not> lt m (fst (last v))" by blast
      from keep_part_below [OF swo sv this bv] have bm: "lt (fst b) m" .
      from a have "equiv_key lt (fst a) m" by (auto dest: moved_part_equiv)
      from lt_equiv_right [OF swo bm this] show "lt (fst b) (fst a)" .
    qed
    from r m g_ne ne un de above uniform_group_moved [OF swo] show ?thesis
      by (intro exI [of _ "?g # G1"]) (simp add: descending_groups_def)
  qed
qed

lemma shufflePhase_groups:
  assumes swo: "strict_weak_order lt" and s: "list_all (sorted_vec lt) (intermediateVecs ctx)"
  shows "\<exists>G. shufflePhase lt ctx = Some (shuffled_ctx (shufflePhase_setTotal ctx) G)
          \<and> mset (concat G) = mset (concat (intermediateVecs ctx))
          \<and> list_all (\<lambda>g. g \<noteq> []) G
          \<and> list_all (uniform_group lt) G
          \<and> descending_groups lt G"
proof -
  have v: "intermediateVecs (shufflePhase_setTotal ctx) = intermediateVecs ctx"
    by (simp add: shufflePhase_setTotal_def)
  with s have "list_all (sorted_vec lt) (intermediateVecs (shufflePhase_setTotal ctx))" by simp
  from shuffleLoop_groups [OF swo this] show ?thesis
    by (simp only: v shufflePhase_def)
qed

lemma shuffledData_shuffled_ctx:
  "shuffledData (shuffled_ctx (shufflePhase_setTotal ctx) G) = shuffledData ctx @ G"
  by (simp add: shuffled_ctx_def shufflePhase_setTotal_def)

lemma swo_nat: "strict_weak_order ((<) :: nat \<Rightarrow> nat \<Rightarrow> bool)"
  by (auto simp: strict_weak_order_def equiv_key_def)

lemma two_buffers_sorted: "list_all (sorted_vec (<)) (intermediateVecs two_buffers)"
  by (simp add: two_buffers_def sorted_vec_def pair_less_def)

text \<open>
  C1. From buffers sorted under a strict weak order, \<^verbatim>\<open>shufflePhase\<close> returns, and
  the groups \<open>G\<close> it appends to \<open>shuffledData\<close> hold, as a multiset, exactly the
  pairs of all buffers: every pair is in the groups as often as in the buffers.
\<close>

theorem shufflePhase_pairs:
  "strict_weak_order lt \<Longrightarrow> list_all (sorted_vec lt) (intermediateVecs ctx) \<Longrightarrow>
     \<exists>ctx' G. shufflePhase lt ctx = Some ctx'
        \<and> shuffledData ctx' = shuffledData ctx @ G
        \<and> mset (concat G) = mset (concat (intermediateVecs ctx))"
proof -
  assume "strict_weak_order lt" and "list_all (sorted_vec lt) (intermediateVecs ctx)"
  from shufflePhase_groups [OF this] obtain G where
    "shufflePhase lt ctx = Some (shuffled_ctx (shufflePhase_setTotal ctx) G)"
    "mset (concat G) = mset (concat (intermediateVecs ctx))" by blast
  then show ?thesis
    using shuffledData_shuffled_ctx [of ctx G] by blast
qed

theorem shufflePhase_pairs_witness:
  "strict_weak_order ((<) :: nat \<Rightarrow> nat \<Rightarrow> bool)
   \<and> list_all (sorted_vec (<)) (intermediateVecs two_buffers)
   \<and> (\<exists>ctx' G. shufflePhase (<) two_buffers = Some ctx'
        \<and> shuffledData ctx' = shuffledData two_buffers @ G
        \<and> mset (concat G) = mset (concat (intermediateVecs two_buffers)))"
  using shufflePhase_pairs [OF swo_nat two_buffers_sorted] swo_nat two_buffers_sorted
  by blast

text \<open>
  C2. From buffers sorted under a strict weak order, the groups that
  \<^verbatim>\<open>shufflePhase\<close> appends are in strictly descending key order: every key of a
  group is greater than every key of every group formed after it.
\<close>

theorem shufflePhase_descending:
  "strict_weak_order lt \<Longrightarrow> list_all (sorted_vec lt) (intermediateVecs ctx) \<Longrightarrow>
     \<exists>ctx' G. shufflePhase lt ctx = Some ctx'
        \<and> shuffledData ctx' = shuffledData ctx @ G
        \<and> (\<forall>i j. i < j \<and> j < length G \<longrightarrow>
              (\<forall>a\<in>set (G ! i). \<forall>b\<in>set (G ! j). lt (fst b) (fst a)))"
proof -
  assume "strict_weak_order lt" and "list_all (sorted_vec lt) (intermediateVecs ctx)"
  from shufflePhase_groups [OF this] obtain G where
    r: "shufflePhase lt ctx = Some (shuffled_ctx (shufflePhase_setTotal ctx) G)"
    and d: "descending_groups lt G" by blast
  from d have "\<forall>i j. i < j \<and> j < length G \<longrightarrow>
              (\<forall>a\<in>set (G ! i). \<forall>b\<in>set (G ! j). lt (fst b) (fst a))"
    by (auto simp: descending_groups_def sorted_wrt_iff_nth_less group_above_def)
  with r show ?thesis
    using shuffledData_shuffled_ctx [of ctx G] by blast
qed

theorem shufflePhase_descending_witness:
  "strict_weak_order ((<) :: nat \<Rightarrow> nat \<Rightarrow> bool)
   \<and> list_all (sorted_vec (<)) (intermediateVecs two_buffers)
   \<and> (\<exists>ctx' G. shufflePhase (<) two_buffers = Some ctx'
        \<and> shuffledData ctx' = shuffledData two_buffers @ G
        \<and> (\<forall>i j. i < j \<and> j < length G \<longrightarrow>
              (\<forall>a\<in>set (G ! i). \<forall>b\<in>set (G ! j). fst b < fst a)))"
  using shufflePhase_descending [OF swo_nat two_buffers_sorted] swo_nat two_buffers_sorted
  by blast

text \<open>
  C3. From buffers sorted under a strict weak order, no two keys of a group that
  \<^verbatim>\<open>shufflePhase\<close> appends are distinguishable.
\<close>

theorem shufflePhase_uniform:
  "strict_weak_order lt \<Longrightarrow> list_all (sorted_vec lt) (intermediateVecs ctx) \<Longrightarrow>
     \<exists>ctx' G. shufflePhase lt ctx = Some ctx'
        \<and> shuffledData ctx' = shuffledData ctx @ G
        \<and> (\<forall>g\<in>set G. \<forall>a\<in>set g. \<forall>b\<in>set g. \<not> lt (fst a) (fst b) \<and> \<not> lt (fst b) (fst a))"
proof -
  assume "strict_weak_order lt" and "list_all (sorted_vec lt) (intermediateVecs ctx)"
  from shufflePhase_groups [OF this] obtain G where
    r: "shufflePhase lt ctx = Some (shuffled_ctx (shufflePhase_setTotal ctx) G)"
    and u: "list_all (uniform_group lt) G" by blast
  from u have "\<forall>g\<in>set G. \<forall>a\<in>set g. \<forall>b\<in>set g. \<not> lt (fst a) (fst b) \<and> \<not> lt (fst b) (fst a)"
    by (simp add: list_all_iff uniform_group_def)
  with r show ?thesis
    using shuffledData_shuffled_ctx [of ctx G] by blast
qed

theorem shufflePhase_uniform_witness:
  "strict_weak_order ((<) :: nat \<Rightarrow> nat \<Rightarrow> bool)
   \<and> list_all (sorted_vec (<)) (intermediateVecs two_buffers)
   \<and> (\<exists>ctx' G. shufflePhase (<) two_buffers = Some ctx'
        \<and> shuffledData ctx' = shuffledData two_buffers @ G
        \<and> (\<forall>g\<in>set G. \<forall>a\<in>set g. \<forall>b\<in>set g. \<not> fst a < fst b \<and> \<not> fst b < fst a))"
  using shufflePhase_uniform [OF swo_nat two_buffers_sorted] swo_nat two_buffers_sorted
  by blast

section \<open>Counting the groups\<close>

lemma key_classes_Cons:
  assumes swo: "strict_weak_order lt" and ne: "g \<noteq> []" and un: "uniform_group lt g"
    and ab: "\<forall>g'\<in>set G. group_above lt g g'"
  shows "key_classes lt (concat (g # G)) = insert (fst ` set g) (key_classes lt (concat G))"
    and "fst ` set g \<notin> key_classes lt (concat G)"
proof -
  let ?Kg = "fst ` set g" and ?K1 = "fst ` set (concat G)"
  have K: "fst ` set (concat (g # G)) = ?Kg \<union> ?K1" by (simp add: image_Un)
  have below: "lt k' k" if "k \<in> ?Kg" "k' \<in> ?K1" for k k'
    using that ab unfolding group_above_def by fastforce
  have same: "equiv_key lt k k'" if "k \<in> ?Kg" "k' \<in> ?Kg" for k k'
    using that un unfolding uniform_group_def equiv_key_def by fastforce
  have cg: "{k' \<in> ?Kg \<union> ?K1. equiv_key lt k k'} = ?Kg" if k: "k \<in> ?Kg" for k
  proof -
    have "\<not> equiv_key lt k k'" if "k' \<in> ?K1" for k'
      using below [OF k that] by (simp add: equiv_key_def)
    with same [OF k] show ?thesis by blast
  qed
  have c1: "{k' \<in> ?Kg \<union> ?K1. equiv_key lt k k'} = {k' \<in> ?K1. equiv_key lt k k'}"
    if k: "k \<in> ?K1" for k
  proof -
    have "\<not> equiv_key lt k k'" if "k' \<in> ?Kg" for k'
      using below [OF that k] by (simp add: equiv_key_def)
    then show ?thesis by blast
  qed
  from ne have Kg_ne: "?Kg \<noteq> {}" by simp
  have "key_classes lt (concat (g # G))
          = (\<lambda>k. {k' \<in> ?Kg \<union> ?K1. equiv_key lt k k'}) ` ?Kg
            \<union> (\<lambda>k. {k' \<in> ?Kg \<union> ?K1. equiv_key lt k k'}) ` ?K1"
    unfolding key_classes_def K by (rule image_Un)
  also have "(\<lambda>k. {k' \<in> ?Kg \<union> ?K1. equiv_key lt k k'}) ` ?Kg = {?Kg}"
    using Kg_ne cg by (auto simp: image_def)
  also have "(\<lambda>k. {k' \<in> ?Kg \<union> ?K1. equiv_key lt k k'}) ` ?K1 = key_classes lt (concat G)"
    unfolding key_classes_def using c1 by (intro image_cong) auto
  finally show "key_classes lt (concat (g # G)) = insert ?Kg (key_classes lt (concat G))"
    by simp
  show "?Kg \<notin> key_classes lt (concat G)"
  proof
    assume "?Kg \<in> key_classes lt (concat G)"
    then obtain k where eq: "?Kg = {k' \<in> ?K1. equiv_key lt k k'}"
      unfolding key_classes_def by blast
    from ne obtain p where "p \<in> set g" by (cases g) auto
    then have k0: "fst p \<in> ?Kg" by (rule imageI)
    define k0 where "k0 = fst p"
    note k0 = k0 [folded k0_def]
    from equalityD1 [OF eq] k0 have "k0 \<in> {k' \<in> ?K1. equiv_key lt k k'}" by (rule subsetD)
    then have "k0 \<in> ?K1" by simp
    from below [OF k0 this] swo_irrefl [OF swo] show False by blast
  qed
qed

lemma finite_key_classes: "finite (key_classes lt ps)"
  by (simp add: key_classes_def)

lemma card_key_classes_groups:
  assumes swo: "strict_weak_order lt"
  shows "list_all (\<lambda>g. g \<noteq> []) G \<Longrightarrow> list_all (uniform_group lt) G \<Longrightarrow>
         descending_groups lt G \<Longrightarrow> card (key_classes lt (concat G)) = length G"
proof (induction G)
  case Nil
  show ?case by (simp add: key_classes_def)
next
  case (Cons g G)
  from Cons.prems have ne: "g \<noteq> []" and un: "uniform_group lt g"
    and ab: "\<forall>g'\<in>set G. group_above lt g g'"
    by (simp_all add: descending_groups_def)
  from Cons.prems have "card (key_classes lt (concat G)) = length G"
    by (intro Cons.IH) (simp_all add: descending_groups_def)
  with key_classes_Cons [OF swo ne un ab]
    card_insert_disjoint [OF finite_key_classes [of lt "concat G"], of "fst ` set g"]
  show ?case by simp
qed

lemma key_classes_mset:
  "mset ps = mset qs \<Longrightarrow> key_classes lt ps = key_classes lt qs"
proof -
  assume "mset ps = mset qs"
  then have "set ps = set qs" by (rule mset_eq_setD)
  then show ?thesis by (simp add: key_classes_def)
qed

section \<open>The reduce phase\<close>

text \<open>
  While the number of groups plus the number of workers is at most \<open>2^32\<close>, the
  32-bit index does not wrap: every step of a worker keeps \<open>reduce_inv\<close>, and every
  step of a worker that has not left the loop lowers its bound \<open>steps_left\<close>. So a
  run in which all workers have left the loop has called the client on the group indices
  in order, and a fair schedule makes all workers leave the loop.
\<close>

lemma exited_count_le: "exited_count pcs \<le> length pcs"
  by (simp add: exited_count_def)

lemma exited_count_update:
  "tid < length pcs \<Longrightarrow>
     exited_count (pcs[tid := p]) + (if pcs ! tid = Exited then 1 else 0)
       = exited_count pcs + (if p = Exited then 1 else 0)"
proof (induction pcs arbitrary: tid)
  case Nil
  then show ?case by simp
next
  case (Cons q pcs)
  show ?case
  proof (cases tid)
    case 0
    then show ?thesis by (simp add: exited_count_def)
  next
    case (Suc t)
    with Cons.prems have "t < length pcs" by simp
    from Cons.IH [OF this] Suc show ?thesis
      by (auto simp: exited_count_def split: if_splits)
  qed
qed

lemma exited_count_less:
  assumes "tid < length pcs" "pcs ! tid \<noteq> Exited"
  shows "exited_count pcs < length pcs"
proof -
  from exited_count_update [OF assms(1), of Exited] assms(2)
  have "exited_count (pcs[tid := Exited]) = Suc (exited_count pcs)" by simp
  moreover have "exited_count (pcs[tid := Exited]) \<le> length pcs"
    using exited_count_le [of "pcs[tid := Exited]"] by simp
  ultimately show ?thesis by linarith
qed

lemma exited_count_all:
  "all_exited pcs \<Longrightarrow> exited_count pcs = length pcs"
  by (induction pcs) (simp_all add: all_exited_def exited_count_def)

lemma not_crashed_update:
  "Crashed \<notin> set pcs \<Longrightarrow> p \<noteq> Crashed \<Longrightarrow> Crashed \<notin> set (pcs[tid := p])"
  using set_update_subset_insert [of pcs tid p] by auto

lemma foldl_emit3:
  "foldl (\<lambda>c p. emit3 p c) ctx ps = ctx\<lparr>outputVec := outputVec ctx @ ps\<rparr>"
  by (induction ps arbitrary: ctx) (simp_all add: emit3_def)

lemma unat_ucast_32_64: "unat (ucast (w :: 32 word) :: 64 word) = unat w"
proof -
  have "unat w < 2 ^ 32" using unsigned_less [of w] by simp
  then have "unat w < 2 ^ 64" by simp
  then show ?thesis by (simp add: unsigned_ucast_eq take_bit_eq_mod)
qed

lemma unat_of_nat_64: "n < 2 ^ 64 \<Longrightarrow> unat (of_nat n :: 64 word) = n"
  by (simp add: unat_of_nat)

lemma unat_of_nat_32: "n < 2 ^ 32 \<Longrightarrow> unat (of_nat n :: 32 word) = n"
  by (simp add: unat_of_nat)

lemma reducePhase_iter_cases:
  assumes n: "length (shuffledData c) = n" and cnt: "unat (shuffleCounter c) = n"
    and i: "unat (nextReduceIndex c) = i"
  shows "reducePhase_iter client tid c =
     (if n \<le> i then (Break, c\<lparr>nextReduceIndex := nextReduceIndex c + 1\<rparr>)
      else (Processed i,
            c\<lparr>nextReduceIndex := nextReduceIndex c + 1,
              outputVec := outputVec c @ reduce_fn client (shuffledData c ! i),
              stateManager := incrementProcessed (stateManager c)\<rparr>))"
proof -
  have le: "(shuffleCounter c \<le> ucast (nextReduceIndex c)) = (n \<le> i)"
    by (simp add: word_le_nat_alt unat_ucast_32_64 cnt i)
  show ?thesis
    using n by (simp add: reducePhase_iter_def Let_def le i foldl_emit3)
qed

lemma steps_left_mono: "k \<le> k' \<Longrightarrow> steps_left n k' p \<le> steps_left n k p"
  by (cases p) (simp_all add: steps_left_def)

lemma reduce_step:
  assumes bound: "length SD + nThreads \<le> 2 ^ 32"
    and inv: "reduce_inv client SD out0 nThreads s"
  shows "reduce_inv client SD out0 nThreads (reducePhase_step client s t)
     \<and> (tid < nThreads \<longrightarrow>
          steps_left (length SD) (length (snd (snd (reducePhase_step client s t))))
              (fst (reducePhase_step client s t) ! tid)
            \<le> steps_left (length SD) (length (snd (snd s))) (fst s ! tid)
                - (if t = tid then 1 else 0))"
proof -
  obtain pcs c calls where s: "s = (pcs, c, calls)" by (cases s)
  let ?e = "exited_count pcs" and ?n = "length SD"
  from inv s obtain k where len: "length pcs = nThreads" and nc: "Crashed \<notin> set pcs"
    and sd: "shuffledData c = SD" and cnt: "shuffleCounter c = of_nat ?n"
    and calls: "calls = [0..<k]" and k: "k \<le> ?n"
    and idx: "nextReduceIndex c = of_nat (k + ?e)"
    and ex: "0 < ?e \<longrightarrow> k = ?n"
    and out: "outputVec c = out0 @ concat (map (reduce_fn client) (take k SD))"
    unfolding reduce_inv_def by auto
  have lc: "length calls = k" using calls by simp
  show ?thesis
  proof (cases "t < length pcs")
    case False
    then have "reducePhase_step client s t = s" by (simp add: reducePhase_step_def s)
    moreover from False len have "tid < nThreads \<Longrightarrow> t \<noteq> tid" by auto
    ultimately show ?thesis using inv by auto
  next
    case t: True
    show ?thesis
    proof (cases "pcs ! t")
      case Entry
      then have st: "reducePhase_step client s t = (pcs[t := Loop], c, calls)"
        using t by (simp add: reducePhase_step_def s)
      from exited_count_update [OF t, of Loop] Entry
      have "exited_count (pcs[t := Loop]) = ?e" by simp
      moreover have "Crashed \<notin> set (pcs[t := Loop])"
        using nc by (rule not_crashed_update) simp
      ultimately have "reduce_inv client SD out0 nThreads (pcs[t := Loop], c, calls)"
        using len sd cnt calls k idx ex out
        unfolding reduce_inv_def by auto
      moreover have "steps_left ?n k ((pcs[t := Loop]) ! tid)
            \<le> steps_left ?n k (pcs ! tid) - (if t = tid then 1 else 0)"
        using Entry t by (cases "t = tid") (simp_all add: steps_left_def)
      ultimately show ?thesis unfolding st by (simp add: s lc)
    next
      case Loop
      then have "?e < length pcs" using exited_count_less [OF t] by simp
      with len k bound have ib: "k + ?e < 2 ^ 32" by linarith
      from t len bound have nb: "?n < 2 ^ 64" by simp
      have ui: "unat (nextReduceIndex c) = k + ?e"
        by (simp only: idx unat_of_nat_32 [OF ib])
      have uc: "unat (shuffleCounter c) = ?n"
        by (simp only: cnt unat_of_nat_64 [OF nb])
      from sd have sdl: "length (shuffledData c) = ?n" by simp
      note it = reducePhase_iter_cases [OF sdl uc ui, of client t]
      have nx: "nextReduceIndex c + 1 = of_nat (Suc (k + ?e))"
        by (simp add: idx)
      show ?thesis
      proof (cases "?n \<le> k + ?e")
        case True
        with it have st: "reducePhase_step client s t
            = (pcs[t := Exited], c\<lparr>nextReduceIndex := nextReduceIndex c + 1\<rparr>, calls)"
          using t Loop by (simp add: reducePhase_step_def s)
        from exited_count_update [OF t, of Exited] Loop
        have e': "exited_count (pcs[t := Exited]) = Suc ?e" by simp
        from True k ex have kn: "k = ?n" by (cases "?e = 0") auto
        have "Crashed \<notin> set (pcs[t := Exited])"
          using nc by (rule not_crashed_update) simp
        with len sd cnt calls k ex out kn nx
        have "reduce_inv client SD out0 nThreads
                (pcs[t := Exited], c\<lparr>nextReduceIndex := nextReduceIndex c + 1\<rparr>, calls)"
          unfolding reduce_inv_def by (auto simp: e')
        moreover have "steps_left ?n k ((pcs[t := Exited]) ! tid)
            \<le> steps_left ?n k (pcs ! tid) - (if t = tid then 1 else 0)"
          using Loop t by (cases "t = tid") (simp_all add: steps_left_def)
        ultimately show ?thesis unfolding st by (simp add: s lc)
      next
        case False
        with ex have e0: "?e = 0" and kl: "k < ?n" by auto
        from False it have st: "reducePhase_step client s t
            = (pcs, c\<lparr>nextReduceIndex := nextReduceIndex c + 1,
                       outputVec := outputVec c @ reduce_fn client (shuffledData c ! (k + ?e)),
                       stateManager := incrementProcessed (stateManager c)\<rparr>,
               calls @ [k + ?e])"
          using t Loop by (simp add: reducePhase_step_def s)
        have "take (Suc k) SD = take k SD @ [SD ! k]"
          using kl by (simp add: take_Suc_conv_app_nth)
        with len nc sd cnt calls kl e0 out nx
        have "reduce_inv client SD out0 nThreads
            (pcs, c\<lparr>nextReduceIndex := nextReduceIndex c + 1,
                       outputVec := outputVec c @ reduce_fn client (shuffledData c ! (k + ?e)),
                       stateManager := incrementProcessed (stateManager c)\<rparr>,
               calls @ [k + ?e])"
          unfolding reduce_inv_def
          by (auto intro!: exI [of _ "Suc k"])
        moreover have "steps_left ?n (Suc k) (pcs ! tid)
            \<le> steps_left ?n k (pcs ! tid) - (if t = tid then 1 else 0)"
        proof (cases "t = tid")
          case True
          with Loop kl show ?thesis by (simp add: steps_left_def)
        next
          case False
          then show ?thesis using steps_left_mono [of k "Suc k" ?n "pcs ! tid"] by simp
        qed
        ultimately show ?thesis unfolding st by (simp add: s lc)
      qed
    next
      case Exited
      then have "reducePhase_step client s t = s" using t by (simp add: reducePhase_step_def s)
      moreover have "steps_left ?n k (pcs ! tid)
            \<le> steps_left ?n k (pcs ! tid) - (if t = tid then 1 else 0)"
        using Exited by (cases "t = tid") (simp_all add: steps_left_def)
      ultimately show ?thesis using inv by (simp add: s lc)
    next
      case Crashed
      with t nc show ?thesis by (auto simp: in_set_conv_nth)
    qed
  qed
qed

lemma reduce_run:
  assumes bound: "length SD + nThreads \<le> 2 ^ 32"
  shows "reduce_inv client SD out0 nThreads s \<Longrightarrow>
     reduce_inv client SD out0 nThreads (foldl (reducePhase_step client) s sched)
     \<and> (tid < nThreads \<longrightarrow>
          steps_left (length SD) (length (snd (snd (foldl (reducePhase_step client) s sched))))
              (fst (foldl (reducePhase_step client) s sched) ! tid)
            \<le> steps_left (length SD) (length (snd (snd s))) (fst s ! tid)
                - count_list sched tid)"
proof (induction sched arbitrary: s)
  case Nil
  then show ?case by simp
next
  case (Cons t sched)
  let ?s1 = "reducePhase_step client s t"
  from reduce_step [OF bound Cons.prems, of t tid]
  have i1: "reduce_inv client SD out0 nThreads ?s1"
    and p1: "tid < nThreads \<Longrightarrow>
          steps_left (length SD) (length (snd (snd ?s1))) (fst ?s1 ! tid)
            \<le> steps_left (length SD) (length (snd (snd s))) (fst s ! tid)
                - (if t = tid then 1 else 0)"
    by simp_all
  from Cons.IH [OF i1]
  have i2: "reduce_inv client SD out0 nThreads (foldl (reducePhase_step client) ?s1 sched)"
    and p2: "tid < nThreads \<Longrightarrow>
          steps_left (length SD)
              (length (snd (snd (foldl (reducePhase_step client) ?s1 sched))))
              (fst (foldl (reducePhase_step client) ?s1 sched) ! tid)
            \<le> steps_left (length SD) (length (snd (snd ?s1))) (fst ?s1 ! tid)
                - count_list sched tid"
    by simp_all
  show ?case
  proof (intro conjI impI)
    show "reduce_inv client SD out0 nThreads (foldl (reducePhase_step client) s (t # sched))"
      using i2 by simp
  next
    assume tid: "tid < nThreads"
    from p1 [OF tid] p2 [OF tid]
    show "steps_left (length SD)
              (length (snd (snd (foldl (reducePhase_step client) s (t # sched)))))
              (fst (foldl (reducePhase_step client) s (t # sched)) ! tid)
            \<le> steps_left (length SD) (length (snd (snd s))) (fst s ! tid)
                - count_list (t # sched) tid"
      by (cases "t = tid") simp_all
  qed
qed

lemma reduce_inv_init:
  assumes "shuffleCounter c = of_nat (length (shuffledData c))" "nextReduceIndex c = 0"
  shows "reduce_inv client (shuffledData c) (outputVec c) nThreads (replicate nThreads Entry, c, [])"
  using assms unfolding reduce_inv_def
  by (auto simp: exited_count_def intro!: exI [of _ 0])

lemma steps_left_0: "steps_left n k p = 0 \<Longrightarrow> p = Exited \<or> p = Crashed"
  by (cases p) (simp_all add: steps_left_def)

lemma fair_scheduleD:
  "fair_schedule nThreads n sched \<Longrightarrow> tid < nThreads \<Longrightarrow> n + 2 \<le> count_list sched tid"
  by (simp add: fair_schedule_def list_all_iff)

lemma reduce_run_complete:
  assumes bound: "length (shuffledData c) + nThreads \<le> 2 ^ 32" and n1: "1 \<le> nThreads"
    and cnt: "shuffleCounter c = of_nat (length (shuffledData c))"
    and idx: "nextReduceIndex c = 0"
    and run: "foldl (reducePhase_step client) (replicate nThreads Entry, c, []) sched
                = (pcs, c', calls)"
    and fin: "all_exited pcs"
  shows "calls = [0..<length (shuffledData c)]
         \<and> outputVec c' = outputVec c @ concat (map (reduce_fn client) (shuffledData c))"
proof -
  from reduce_run [OF bound reduce_inv_init [OF cnt idx], of client sched]
  have "reduce_inv client (shuffledData c) (outputVec c) nThreads (pcs, c', calls)"
    by (simp only: run)
  moreover from this fin n1 have "0 < exited_count pcs"
    by (simp add: reduce_inv_def exited_count_all)
  ultimately show ?thesis
    by (auto simp: reduce_inv_def)
qed

lemma reduce_run_fair:
  assumes bound: "length (shuffledData c) + nThreads \<le> 2 ^ 32"
    and cnt: "shuffleCounter c = of_nat (length (shuffledData c))"
    and idx: "nextReduceIndex c = 0"
    and fair: "fair_schedule nThreads (length (shuffledData c)) sched"
  shows "all_exited (fst (foldl (reducePhase_step client) (replicate nThreads Entry, c, []) sched))"
proof -
  let ?n = "length (shuffledData c)"
  let ?s0 = "(replicate nThreads Entry, c, [])"
  let ?r = "foldl (reducePhase_step client) ?s0 sched"
  obtain pcs c' calls where r: "?r = (pcs, c', calls)" by (rule prod_cases3)
  note run = reduce_run [OF bound reduce_inv_init [OF cnt idx], of client sched]
  from run [of 0] r have inv: "reduce_inv client (shuffledData c) (outputVec c) nThreads (pcs, c', calls)"
    by simp
  then have len: "length pcs = nThreads" and nc: "Crashed \<notin> set pcs"
    by (simp_all add: reduce_inv_def)
  have "pcs ! tid = Exited" if tid: "tid < nThreads" for tid
  proof -
    from run [of tid] tid r
    have "steps_left ?n (length calls) (pcs ! tid)
            \<le> steps_left ?n 0 Entry - count_list sched tid"
      by simp
    also have "\<dots> = 0" using fair_scheduleD [OF fair tid] by (simp add: steps_left_def)
    finally have "steps_left ?n (length calls) (pcs ! tid) = 0" by simp
    then have "pcs ! tid = Exited \<or> pcs ! tid = Crashed" by (rule steps_left_0)
    moreover from tid len have "pcs ! tid \<in> set pcs" by simp
    ultimately show ?thesis using nc by auto
  qed
  then have "all_exited pcs" using len by (simp add: all_exited_def list_all_length)
  with r show ?thesis by simp
qed

section \<open>The map phase\<close>

text \<open>
  The same two facts for the map loop, with \<open>map_inv\<close> and the size of the input.
\<close>

lemma foldl_emit2:
  "foldl (\<lambda>c p. emit2 p tid c) ctx ps
     = ctx\<lparr>intermediateVecs :=
             (intermediateVecs ctx)[tid := (intermediateVecs ctx ! tid) @ ps]\<rparr>"
proof (induction ps arbitrary: ctx)
  case Nil
  show ?case by simp
next
  case (Cons p ps)
  have "foldl (\<lambda>c p. emit2 p tid c) ctx (p # ps)
          = foldl (\<lambda>c p. emit2 p tid c) (emit2 p tid ctx) ps" by simp
  also have "\<dots> = (emit2 p tid ctx)\<lparr>intermediateVecs :=
             (intermediateVecs (emit2 p tid ctx))
               [tid := (intermediateVecs (emit2 p tid ctx) ! tid) @ ps]\<rparr>"
    by (rule Cons)
  also have "\<dots> = ctx\<lparr>intermediateVecs :=
             (intermediateVecs ctx)[tid := (intermediateVecs ctx ! tid) @ p # ps]\<rparr>"
    by (cases "tid < length (intermediateVecs ctx)")
      (simp_all add: emit2_def list_update_beyond not_less)
  finally show ?case .
qed

lemma mset_concat_update:
  "tid < length vecs \<Longrightarrow>
     mset (concat (vecs[tid := vecs ! tid @ ps])) = mset (concat vecs) + mset ps"
proof (induction vecs arbitrary: tid)
  case Nil
  then show ?case by simp
next
  case (Cons v vecs)
  show ?case
  proof (cases tid)
    case 0
    then show ?thesis by simp
  next
    case (Suc t)
    with Cons.prems have "t < length vecs" by simp
    from Cons.IH [OF this] Suc show ?thesis by simp
  qed
qed

lemma mapPhase_iter_cases:
  assumes inp: "inputVec c = input" and i: "unat (nextInputIndex c) = i"
  shows "mapPhase_iter client tid c =
     (if length input \<le> i then (Break, c\<lparr>nextInputIndex := nextInputIndex c + 1\<rparr>)
      else (Processed i,
            c\<lparr>nextInputIndex := nextInputIndex c + 1,
              intermediateVecs :=
                (intermediateVecs c)[tid := intermediateVecs c ! tid @ map_fn client (input ! i)],
              stateManager := incrementProcessed (stateManager c)\<rparr>))"
  using inp by (simp add: mapPhase_iter_def Let_def i foldl_emit2)

lemma map_step:
  assumes bound: "length input + nThreads \<le> 2 ^ 32"
    and inv: "map_inv client input out0 nThreads s"
  shows "map_inv client input out0 nThreads (mapPhase_step client s t)
     \<and> (tid < nThreads \<longrightarrow>
          steps_left (length input) (length (snd (snd (mapPhase_step client s t))))
              (fst (mapPhase_step client s t) ! tid)
            \<le> steps_left (length input) (length (snd (snd s))) (fst s ! tid)
                - (if t = tid then 1 else 0))"
proof -
  obtain pcs c calls where s: "s = (pcs, c, calls)" by (cases s)
  let ?e = "exited_count pcs" and ?n = "length input"
  from inv s obtain k where len: "length pcs = nThreads" and nc: "Crashed \<notin> set pcs"
    and inp: "inputVec c = input" and lv: "length (intermediateVecs c) = nThreads"
    and rest: "outputVec c = out0" "shuffledData c = []" "shuffleCounter c = 0"
      "nextReduceIndex c = 0"
    and calls: "calls = [0..<k]" and k: "k \<le> ?n"
    and idx: "nextInputIndex c = of_nat (k + ?e)"
    and ex: "0 < ?e \<longrightarrow> k = ?n"
    and vecs: "mset (concat (intermediateVecs c)) = mset (concat (map (map_fn client) (take k input)))"
    unfolding map_inv_def by auto
  have lc: "length calls = k" using calls by simp
  show ?thesis
  proof (cases "t < length pcs")
    case False
    then have "mapPhase_step client s t = s" by (simp add: mapPhase_step_def s)
    moreover from False len have "tid < nThreads \<Longrightarrow> t \<noteq> tid" by auto
    ultimately show ?thesis using inv by auto
  next
    case t: True
    show ?thesis
    proof (cases "pcs ! t")
      case Entry
      then have st: "mapPhase_step client s t = (pcs[t := Loop], mapPhase_enter t c, calls)"
        using t by (simp add: mapPhase_step_def s)
      from exited_count_update [OF t, of Loop] Entry
      have "exited_count (pcs[t := Loop]) = ?e" by simp
      moreover have "Crashed \<notin> set (pcs[t := Loop])"
        using nc by (rule not_crashed_update) simp
      ultimately have "map_inv client input out0 nThreads
                         (pcs[t := Loop], mapPhase_enter t c, calls)"
        using len inp lv rest calls k idx ex vecs
        unfolding map_inv_def by (auto simp: mapPhase_enter_def)
      moreover have "steps_left ?n k ((pcs[t := Loop]) ! tid)
            \<le> steps_left ?n k (pcs ! tid) - (if t = tid then 1 else 0)"
        using Entry t by (cases "t = tid") (simp_all add: steps_left_def)
      ultimately show ?thesis unfolding st by (simp add: s lc)
    next
      case Loop
      then have "?e < length pcs" using exited_count_less [OF t] by simp
      with len k bound have ib: "k + ?e < 2 ^ 32" by linarith
      have ui: "unat (nextInputIndex c) = k + ?e"
        by (simp only: idx unat_of_nat_32 [OF ib])
      note it = mapPhase_iter_cases [OF inp ui, of client t]
      have nx: "nextInputIndex c + 1 = of_nat (Suc (k + ?e))"
        by (simp add: idx)
      show ?thesis
      proof (cases "?n \<le> k + ?e")
        case True
        with it have st: "mapPhase_step client s t
            = (pcs[t := Exited], c\<lparr>nextInputIndex := nextInputIndex c + 1\<rparr>, calls)"
          using t Loop by (simp add: mapPhase_step_def s)
        from exited_count_update [OF t, of Exited] Loop
        have e': "exited_count (pcs[t := Exited]) = Suc ?e" by simp
        from True k ex have kn: "k = ?n" by (cases "?e = 0") auto
        have "Crashed \<notin> set (pcs[t := Exited])"
          using nc by (rule not_crashed_update) simp
        with len inp lv rest calls k ex vecs kn nx
        have "map_inv client input out0 nThreads
                (pcs[t := Exited], c\<lparr>nextInputIndex := nextInputIndex c + 1\<rparr>, calls)"
          unfolding map_inv_def by (auto simp: e')
        moreover have "steps_left ?n k ((pcs[t := Exited]) ! tid)
            \<le> steps_left ?n k (pcs ! tid) - (if t = tid then 1 else 0)"
          using Loop t by (cases "t = tid") (simp_all add: steps_left_def)
        ultimately show ?thesis unfolding st by (simp add: s lc)
      next
        case False
        with ex have e0: "?e = 0" and kl: "k < ?n" by auto
        from False it have st: "mapPhase_step client s t
            = (pcs, c\<lparr>nextInputIndex := nextInputIndex c + 1,
                       intermediateVecs := (intermediateVecs c)
                         [t := intermediateVecs c ! t @ map_fn client (input ! (k + ?e))],
                       stateManager := incrementProcessed (stateManager c)\<rparr>,
               calls @ [k + ?e])"
          using t Loop by (simp add: mapPhase_step_def s)
        have tk: "take (Suc k) input = take k input @ [input ! k]"
          using kl by (simp add: take_Suc_conv_app_nth)
        from t len lv have "t < length (intermediateVecs c)" by simp
        from mset_concat_update [OF this, of "map_fn client (input ! k)"] vecs
        have "mset (concat ((intermediateVecs c)
                 [t := intermediateVecs c ! t @ map_fn client (input ! k)]))
              = mset (concat (map (map_fn client) (take (Suc k) input)))"
          by (simp add: tk)
        with len nc inp lv rest calls kl e0 nx
        have "map_inv client input out0 nThreads
            (pcs, c\<lparr>nextInputIndex := nextInputIndex c + 1,
                       intermediateVecs := (intermediateVecs c)
                         [t := intermediateVecs c ! t @ map_fn client (input ! (k + ?e))],
                       stateManager := incrementProcessed (stateManager c)\<rparr>,
               calls @ [k + ?e])"
          unfolding map_inv_def
          by (auto intro!: exI [of _ "Suc k"])
        moreover have "steps_left ?n (Suc k) (pcs ! tid)
            \<le> steps_left ?n k (pcs ! tid) - (if t = tid then 1 else 0)"
        proof (cases "t = tid")
          case True
          with Loop kl show ?thesis by (simp add: steps_left_def)
        next
          case False
          then show ?thesis using steps_left_mono [of k "Suc k" ?n "pcs ! tid"] by simp
        qed
        ultimately show ?thesis unfolding st by (simp add: s lc)
      qed
    next
      case Exited
      then have "mapPhase_step client s t = s" using t by (simp add: mapPhase_step_def s)
      moreover have "steps_left ?n k (pcs ! tid)
            \<le> steps_left ?n k (pcs ! tid) - (if t = tid then 1 else 0)"
        using Exited by (cases "t = tid") (simp_all add: steps_left_def)
      ultimately show ?thesis using inv by (simp add: s lc)
    next
      case Crashed
      with t nc show ?thesis by (auto simp: in_set_conv_nth)
    qed
  qed
qed

lemma map_run:
  assumes bound: "length input + nThreads \<le> 2 ^ 32"
  shows "map_inv client input out0 nThreads s \<Longrightarrow>
     map_inv client input out0 nThreads (foldl (mapPhase_step client) s sched)
     \<and> (tid < nThreads \<longrightarrow>
          steps_left (length input) (length (snd (snd (foldl (mapPhase_step client) s sched))))
              (fst (foldl (mapPhase_step client) s sched) ! tid)
            \<le> steps_left (length input) (length (snd (snd s))) (fst s ! tid)
                - count_list sched tid)"
proof (induction sched arbitrary: s)
  case Nil
  then show ?case by simp
next
  case (Cons t sched)
  let ?s1 = "mapPhase_step client s t"
  from map_step [OF bound Cons.prems, of t tid]
  have i1: "map_inv client input out0 nThreads ?s1"
    and p1: "tid < nThreads \<Longrightarrow>
          steps_left (length input) (length (snd (snd ?s1))) (fst ?s1 ! tid)
            \<le> steps_left (length input) (length (snd (snd s))) (fst s ! tid)
                - (if t = tid then 1 else 0)"
    by simp_all
  from Cons.IH [OF i1]
  have i2: "map_inv client input out0 nThreads (foldl (mapPhase_step client) ?s1 sched)"
    and p2: "tid < nThreads \<Longrightarrow>
          steps_left (length input)
              (length (snd (snd (foldl (mapPhase_step client) ?s1 sched))))
              (fst (foldl (mapPhase_step client) ?s1 sched) ! tid)
            \<le> steps_left (length input) (length (snd (snd ?s1))) (fst ?s1 ! tid)
                - count_list sched tid"
    by simp_all
  show ?case
  proof (intro conjI impI)
    show "map_inv client input out0 nThreads (foldl (mapPhase_step client) s (t # sched))"
      using i2 by simp
  next
    assume tid: "tid < nThreads"
    from p1 [OF tid] p2 [OF tid]
    show "steps_left (length input)
              (length (snd (snd (foldl (mapPhase_step client) s (t # sched)))))
              (fst (foldl (mapPhase_step client) s (t # sched)) ! tid)
            \<le> steps_left (length input) (length (snd (snd s))) (fst s ! tid)
                - count_list (t # sched) tid"
      by (cases "t = tid") simp_all
  qed
qed

lemma map_inv_init:
  "map_inv client input out0 nThreads
     (replicate nThreads Entry, JobContext_init input out0 nThreads, [])"
  unfolding map_inv_def
  by (auto simp: exited_count_def JobContext_init_def intro!: exI [of _ 0])

lemma map_run_complete:
  assumes bound: "length input + nThreads \<le> 2 ^ 32" and n1: "1 \<le> nThreads"
    and run: "foldl (mapPhase_step client)
                (replicate nThreads Entry, JobContext_init input out0 nThreads, []) sched
                = (pcs, c, calls)"
    and fin: "all_exited pcs"
  shows "calls = [0..<length input]
         \<and> mset (concat (intermediateVecs c)) = mset (concat (map (map_fn client) input))
         \<and> length (intermediateVecs c) = nThreads
         \<and> outputVec c = out0 \<and> shuffledData c = [] \<and> shuffleCounter c = 0
         \<and> nextReduceIndex c = 0"
proof -
  from map_run [OF bound map_inv_init, of client out0 sched]
  have "map_inv client input out0 nThreads (pcs, c, calls)"
    by (simp only: run)
  moreover from this fin n1 have "0 < exited_count pcs"
    by (simp add: map_inv_def exited_count_all)
  ultimately show ?thesis
    by (auto simp: map_inv_def)
qed

lemma map_run_fair:
  assumes bound: "length input + nThreads \<le> 2 ^ 32"
    and fair: "fair_schedule nThreads (length input) sched"
  shows "all_exited (fst (foldl (mapPhase_step client)
           (replicate nThreads Entry, JobContext_init input out0 nThreads, []) sched))"
proof -
  let ?n = "length input"
  let ?r = "foldl (mapPhase_step client)
           (replicate nThreads Entry, JobContext_init input out0 nThreads, []) sched"
  obtain pcs c' calls where r: "?r = (pcs, c', calls)" by (rule prod_cases3)
  note run = map_run [OF bound map_inv_init, of client out0 sched]
  from run [of 0] r have inv: "map_inv client input out0 nThreads (pcs, c', calls)"
    by simp
  then have len: "length pcs = nThreads" and nc: "Crashed \<notin> set pcs"
    by (simp_all add: map_inv_def)
  have "pcs ! tid = Exited" if tid: "tid < nThreads" for tid
  proof -
    from run [of tid] tid r
    have "steps_left ?n (length calls) (pcs ! tid)
            \<le> steps_left ?n 0 Entry - count_list sched tid"
      by simp
    also have "\<dots> = 0" using fair_scheduleD [OF fair tid] by (simp add: steps_left_def)
    finally have "steps_left ?n (length calls) (pcs ! tid) = 0" by simp
    then have "pcs ! tid = Exited \<or> pcs ! tid = Crashed" by (rule steps_left_0)
    moreover from tid len have "pcs ! tid \<in> set pcs" by simp
    ultimately show ?thesis using nc by auto
  qed
  then have "all_exited pcs" using len by (simp add: all_exited_def list_all_length)
  with r show ?thesis by simp
qed

section \<open>The phases in sequence\<close>

text \<open>
  From a state in which all workers have left the map loop, \<open>runWorkers\<close> sorts
  every buffer, shuffles, and runs the reduce loop on the groups of the shuffle.
\<close>

lemma sortPhase_prefix:
  "j \<le> length (intermediateVecs c) \<Longrightarrow>
     foldl (\<lambda>c tid. sortPhase sortf lt tid c) c [0..<j]
       = c\<lparr>intermediateVecs := map (sortf (pair_less lt)) (take j (intermediateVecs c))
                                   @ drop j (intermediateVecs c)\<rparr>"
proof (induction j)
  case 0
  show ?case by simp
next
  case (Suc j)
  let ?vs = "intermediateVecs c"
  let ?l = "map (sortf (pair_less lt)) (take j ?vs)"
  from Suc.prems have j: "j < length ?vs" by simp
  then have d: "drop j ?vs = ?vs ! j # drop (Suc j) ?vs" by (simp add: Cons_nth_drop_Suc)
  have lj: "length ?l = j" using j by simp
  have n: "(?l @ drop j ?vs) ! j = ?vs ! j"
    by (simp only: d nth_append_length [of ?l, unfolded lj])
  have u: "(?l @ drop j ?vs)[j := x] = ?l @ x # drop (Suc j) ?vs" for x
    by (simp only: d list_update_length [of ?l, unfolded lj])
  have t: "map (sortf (pair_less lt)) (take (Suc j) ?vs) = ?l @ [sortf (pair_less lt) (?vs ! j)]"
    using j by (simp add: take_Suc_conv_app_nth)
  from Suc.IH j
  have "foldl (\<lambda>c tid. sortPhase sortf lt tid c) c [0..<Suc j]
          = sortPhase sortf lt j (c\<lparr>intermediateVecs := ?l @ drop j ?vs\<rparr>)"
    by simp
  also have "\<dots> = c\<lparr>intermediateVecs := ?l @ sortf (pair_less lt) (?vs ! j) # drop (Suc j) ?vs\<rparr>"
    by (simp add: sortPhase_def n u)
  finally show ?case by (simp add: t)
qed

lemma sortPhase_all:
  "length (intermediateVecs c) = n \<Longrightarrow>
     foldl (\<lambda>c tid. sortPhase sortf lt tid c) c [0..<n]
       = c\<lparr>intermediateVecs := map (sortf (pair_less lt)) (intermediateVecs c)\<rparr>"
  using sortPhase_prefix [of n c sortf lt] by simp

lemma mset_concat_map_sort:
  assumes "sort_contract sortf lt"
  shows "mset (concat (map (sortf (pair_less lt)) vecs)) = mset (concat vecs)"
  using assms by (induction vecs) (simp_all add: sort_contract_def)

lemma sorted_map_sort:
  assumes "sort_contract sortf lt"
  shows "list_all (sorted_vec lt) (map (sortf (pair_less lt)) vecs)"
  using assms by (simp add: list_all_iff sort_contract_def)

lemma threadFunc_shuffle_groups:
  assumes swo: "strict_weak_order lt" and s: "list_all (sorted_vec lt) (intermediateVecs c)"
    and fresh: "shuffledData c = []" "shuffleCounter c = 0" "nextReduceIndex c = 0"
  shows "\<exists>G c'. threadFunc_shuffle lt c = Some c'
          \<and> shuffledData c' = G \<and> shuffleCounter c' = of_nat (length G)
          \<and> nextReduceIndex c' = 0 \<and> outputVec c' = outputVec c
          \<and> mset (concat G) = mset (concat (intermediateVecs c))
          \<and> list_all (\<lambda>g. g \<noteq> []) G
          \<and> list_all (uniform_group lt) G
          \<and> descending_groups lt G"
proof -
  let ?c1 = "threadFunc_setStage c"
  have v: "intermediateVecs ?c1 = intermediateVecs c" by (simp add: threadFunc_setStage_def)
  from s have "list_all (sorted_vec lt) (intermediateVecs ?c1)" by (simp only: v)
  from shufflePhase_groups [OF swo this] obtain G where
    r: "shufflePhase lt ?c1 = Some (shuffled_ctx (shufflePhase_setTotal ?c1) G)"
    and ms: "mset (concat G) = mset (concat (intermediateVecs c))"
    and good: "list_all (\<lambda>g. g \<noteq> []) G" "list_all (uniform_group lt) G"
      "descending_groups lt G"
    by (auto simp only: v)
  let ?c2 = "shuffled_ctx (shufflePhase_setTotal ?c1) G"
  let ?c3 = "?c2\<lparr>stateManager :=
                 updateState REDUCE_STAGE 0 (ucast (shuffleCounter ?c2)) (stateManager ?c2)\<rparr>"
  have "threadFunc_shuffle lt c = Some ?c3" by (simp add: threadFunc_shuffle_def r)
  moreover have "shuffledData ?c3 = G" "shuffleCounter ?c3 = of_nat (length G)"
    "nextReduceIndex ?c3 = 0" "outputVec ?c3 = outputVec c"
    using fresh
    by (simp_all add: shuffled_ctx_def shufflePhase_setTotal_def threadFunc_setStage_def)
  ultimately show ?thesis using ms good by blast
qed



lemma runWorkers_from_map:
  fixes client :: "('k1, 'v1, 'k2, 'v2, 'k3, 'v3) MapReduceClient"
  assumes swo: "strict_weak_order lt" and sort: "sort_contract sortf lt"
    and n1: "1 \<le> nThreads"
    and m: "foldl (mapPhase_step client) (replicate nThreads Entry, ctx0, []) mapSched
              = (pcs1, c1, mc)"
    and ex1: "all_exited pcs1"
    and l1: "length (intermediateVecs c1) = nThreads"
    and f1: "outputVec c1 = out0" "shuffledData c1 = []" "shuffleCounter c1 = 0"
      "nextReduceIndex c1 = 0"
    and b2: "card (key_classes lt (concat (intermediateVecs c1))) + nThreads \<le> 2 ^ 32"
  shows "\<exists>G. mset (concat G) = mset (concat (intermediateVecs c1))
          \<and> list_all (\<lambda>g. g \<noteq> []) G \<and> list_all (uniform_group lt) G
          \<and> descending_groups lt G
          \<and> (\<forall>ctx' mc' rc.
                runWorkers sortf lt client nThreads mapSched reduceSched ctx0
                  = Some (ctx', mc', rc)
                \<longrightarrow> outputVec ctx' = out0 @ concat (map (reduce_fn client) G)
                    \<and> mc' = mc \<and> rc = [0..<length G])
          \<and> (fair_schedule nThreads (length G) reduceSched
                \<longrightarrow> (\<exists>r. runWorkers sortf lt client nThreads mapSched reduceSched ctx0
                          = Some r))"
proof -
  let ?c2 = "c1\<lparr>intermediateVecs := map (sortf (pair_less lt)) (intermediateVecs c1)\<rparr>"
  have c2: "foldl (\<lambda>c tid. sortPhase sortf lt tid c) c1 [0..<nThreads] = ?c2"
    by (rule sortPhase_all [OF l1])
  have s2: "list_all (sorted_vec lt) (intermediateVecs ?c2)"
    using sorted_map_sort [OF sort] by simp
  have v2: "mset (concat (intermediateVecs ?c2)) = mset (concat (intermediateVecs c1))"
    using mset_concat_map_sort [OF sort] by simp
  from threadFunc_shuffle_groups [OF swo s2] f1 obtain G c3 where
    r3: "threadFunc_shuffle lt ?c2 = Some c3"
    and f3: "shuffledData c3 = G" "shuffleCounter c3 = of_nat (length G)"
      "nextReduceIndex c3 = 0" "outputVec c3 = out0"
    and ms: "mset (concat G) = mset (concat (intermediateVecs ?c2))"
    and good: "list_all (\<lambda>g. g \<noteq> []) G" "list_all (uniform_group lt) G"
      "descending_groups lt G"
    by auto
  from ms v2 have ms1: "mset (concat G) = mset (concat (intermediateVecs c1))" by simp
  have "card (key_classes lt (concat G)) = length G"
    by (rule card_key_classes_groups [OF swo good])
  with key_classes_mset [OF ms1, of lt] b2 have "length G + nThreads \<le> 2 ^ 32" by simp
  then have b3: "length (shuffledData c3) + nThreads \<le> 2 ^ 32" by (simp only: f3)
  from f3 have cnt: "shuffleCounter c3 = of_nat (length (shuffledData c3))" by simp
  obtain pcs2 c4 rc0 where red: "foldl (reducePhase_step client)
      (replicate nThreads Entry, c3, []) reduceSched = (pcs2, c4, rc0)"
    by (rule prod_cases3)
  have rw: "runWorkers sortf lt client nThreads mapSched reduceSched ctx0
              = (if all_exited pcs2 then Some (c4, mc, rc0) else None)"
    using m ex1 c2 r3 red by (simp add: runWorkers_def)
  have part: "outputVec ctx' = out0 @ concat (map (reduce_fn client) G)
                    \<and> mc' = mc \<and> rc = [0..<length G]"
    if "runWorkers sortf lt client nThreads mapSched reduceSched ctx0 = Some (ctx', mc', rc)"
    for ctx' mc' rc
  proof -
    from that rw have ex2: "all_exited pcs2" and res: "ctx' = c4" "mc' = mc" "rc = rc0"
      by (simp_all split: if_splits)
    from reduce_run_complete [OF b3 n1 cnt f3(3) red ex2] f3 res show ?thesis by simp
  qed
  have tot: "\<exists>r. runWorkers sortf lt client nThreads mapSched reduceSched ctx0 = Some r"
    if "fair_schedule nThreads (length G) reduceSched"
  proof -
    from that have "fair_schedule nThreads (length (shuffledData c3)) reduceSched"
      by (simp only: f3)
    from reduce_run_fair [OF b3 cnt f3(3) this, of client] red have "all_exited pcs2" by simp
    with rw show ?thesis by simp
  qed
  from ms1 good part tot show ?thesis by blast
qed

section \<open>The counter and the reduce loop\<close>








lemma key_classes_distinct_keys:
  "card (key_classes (<) (map (\<lambda>i. (i, v :: nat)) [0..<n])) = n"
proof -
  have K: "fst ` set (map (\<lambda>i. (i, v)) [0..<n]) = {0..<n}"
    by (auto simp: image_iff)
  have "key_classes (<) (map (\<lambda>i. (i, v)) [0..<n]) = (\<lambda>k. {k}) ` {0..<n}"
    unfolding key_classes_def K
    by (rule image_cong) (auto simp: equiv_key_def)
  moreover have "card ((\<lambda>k :: nat. {k}) ` {0..<n}) = card {0..<n}"
    by (rule card_image) (simp add: inj_on_def)
  ultimately show ?thesis by simp
qed









section \<open>The whole job\<close>

text \<open>
  A strict weak order determines the descending sequence of groups of a multiset of pairs
  up to the order of the pairs inside each group. So two runs on the same input form
  groups that agree as multisets, whatever the workers and the schedules were.
\<close>

lemma top_group_max:
  assumes swo: "strict_weak_order lt" and un: "uniform_group lt g"
    and ab: "\<forall>h\<in>set G. group_above lt g h"
    and a: "a \<in> set g" and p: "p \<in> set (concat (g # G))"
  shows "\<not> lt (fst a) (fst p)"
proof (cases "p \<in> set g")
  case True
  with un a show ?thesis by (simp add: uniform_group_def)
next
  case False
  with p obtain h where "h \<in> set G" "p \<in> set h" by auto
  with ab a have "lt (fst p) (fst a)" by (simp add: group_above_def)
  then show ?thesis by (rule swo_asym [OF swo])
qed

lemma top_group_filter:
  assumes swo: "strict_weak_order lt" and un: "uniform_group lt g"
    and ab: "\<forall>h\<in>set G. group_above lt g h"
    and a: "a \<in> set g"
  shows "mset g = filter_mset (\<lambda>p. equiv_key lt (fst p) (fst a)) (mset (concat (g # G)))"
proof -
  have "filter_mset (\<lambda>p. equiv_key lt (fst p) (fst a)) (mset g) = mset g"
    using un a by (intro filter_mset_eq_conv [THEN iffD2]) (auto simp: uniform_group_def equiv_key_def)
  moreover have "filter_mset (\<lambda>p. equiv_key lt (fst p) (fst a)) (mset (concat G)) = {#}"
  proof -
    have "\<not> equiv_key lt (fst p) (fst a)" if "p \<in> set (concat G)" for p
    proof -
      from that obtain h where "h \<in> set G" "p \<in> set h" by auto
      with ab a have "lt (fst p) (fst a)" by (simp add: group_above_def)
      then show ?thesis by (simp add: equiv_key_def)
    qed
    then show ?thesis by simp
  qed
  ultimately show ?thesis by simp
qed

lemma groups_unique:
  assumes swo: "strict_weak_order lt"
  shows "list_all (\<lambda>g. g \<noteq> []) G \<Longrightarrow> list_all (uniform_group lt) G \<Longrightarrow>
         descending_groups lt G \<Longrightarrow>
         list_all (\<lambda>g. g \<noteq> []) G' \<Longrightarrow> list_all (uniform_group lt) G' \<Longrightarrow>
         descending_groups lt G' \<Longrightarrow>
         mset (concat G) = mset (concat G') \<Longrightarrow>
         list_all2 (\<lambda>g g'. mset g = mset g') G G'"
proof (induction G arbitrary: G')
  case Nil
  then have "concat G' = []" by simp
  with Nil.prems(4) have "G' = []" by (cases G') auto
  then show ?case by simp
next
  case (Cons g G)
  from Cons.prems(1) obtain a where a: "a \<in> set g" by (cases g) auto
  then have "concat G' \<noteq> []" using Cons.prems(7) by (metis concat.simps(2) append_is_Nil_conv empty_iff list.set(1) mset_zero_iff)
  then obtain g' H where G': "G' = g' # H" by (cases G') auto
  with Cons.prems(4) obtain a' where a': "a' \<in> set g'" by (cases g') auto
  from Cons.prems have un: "uniform_group lt g" and ab: "\<forall>h\<in>set G. group_above lt g h"
    by (simp_all add: descending_groups_def)
  from Cons.prems G' have un': "uniform_group lt g'" and ab': "\<forall>h\<in>set H. group_above lt g' h"
    by (simp_all add: descending_groups_def)
  from Cons.prems(7) have sets: "set (concat (g # G)) = set (concat (g' # H))"
    unfolding G' by (rule mset_eq_setD)
  have "a' \<in> set (concat (g # G))" using a' sets by simp
  from top_group_max [OF swo un ab a this] have 1: "\<not> lt (fst a) (fst a')" .
  have "a \<in> set (concat (g' # H))" using a sets [symmetric] by simp
  from top_group_max [OF swo un' ab' a' this] have 2: "\<not> lt (fst a') (fst a)" .
  from 1 2 have e: "equiv_key lt (fst a) (fst a')" by (simp add: equiv_key_def)
  have same: "equiv_key lt (fst p) (fst a) = equiv_key lt (fst p) (fst a')" for p
    using equiv_key_trans [OF swo _ e] equiv_key_trans [OF swo _ equiv_key_sym [OF e]] by blast
  have "mset g = filter_mset (\<lambda>p. equiv_key lt (fst p) (fst a)) (mset (concat (g # G)))"
    by (rule top_group_filter [OF swo un ab a])
  also have "\<dots> = filter_mset (\<lambda>p. equiv_key lt (fst p) (fst a')) (mset (concat (g' # H)))"
    using Cons.prems(7) by (simp only: same G')
  also have "\<dots> = mset g'"
    by (rule top_group_filter [OF swo un' ab' a', symmetric])
  finally have gg: "mset g = mset g'" .
  with Cons.prems(7) have "mset (concat G) = mset (concat H)" by (simp add: G')
  with Cons.prems G' have "list_all2 (\<lambda>g g'. mset g = mset g') G H"
    by (intro Cons.IH) (simp_all add: descending_groups_def)
  with gg G' show ?case by simp
qed

lemma reduce_output_mset:
  assumes oi: "order_insensitive lt f"
  shows "list_all2 (\<lambda>g g'. mset g = mset g') G G' \<Longrightarrow>
         list_all (\<lambda>g. g \<noteq> []) G \<Longrightarrow> list_all (uniform_group lt) G \<Longrightarrow>
         mset (concat (map f G)) = mset (concat (map f G'))"
proof (induction rule: list_all2_induct)
  case Nil
  show ?case by simp
next
  case (Cons g G g' G')
  from Cons.prems have "g \<noteq> []" "uniform_group lt g" by simp_all
  with oi Cons(1) have "mset (f g) = mset (f g')" unfolding order_insensitive_def by blast
  moreover from Cons have "mset (concat (map f G)) = mset (concat (map f G'))" by simp
  ultimately show ?case by simp
qed

lemma mset_insert_sorted: "mset (insert_sorted cmp x xs) = add_mset x (mset xs)"
  by (induction xs) simp_all

lemma mset_insertion_sort: "mset (insertion_sort cmp xs) = mset xs"
  by (induction xs) (simp_all add: insertion_sort_def mset_insert_sorted)

lemma set_insert_sorted: "set (insert_sorted cmp x xs) = insert x (set xs)"
  by (induction xs) auto

lemma sorted_insert_sorted:
  assumes swo: "strict_weak_order lt"
  shows "sorted_vec lt xs \<Longrightarrow> sorted_vec lt (insert_sorted (pair_less lt) x xs)"
proof (induction xs)
  case Nil
  show ?case by (simp add: sorted_vec_def)
next
  case (Cons y ys)
  from Cons.prems have ys: "sorted_vec lt ys"
    and yz: "\<forall>z\<in>set ys. \<not> lt (fst z) (fst y)"
    by (simp_all add: sorted_vec_def pair_less_def)
  show ?case
  proof (cases "lt (fst y) (fst x)")
    case True
    then have "\<not> lt (fst x) (fst y)" by (rule swo_asym [OF swo])
    with True yz Cons.IH [OF ys] show ?thesis
      by (simp add: sorted_vec_def pair_less_def set_insert_sorted)
  next
    case False
    with yz have "\<forall>z\<in>set ys. \<not> lt (fst z) (fst x)"
      using swo_negtrans [OF swo] by blast
    with False Cons.prems show ?thesis
      by (simp add: sorted_vec_def pair_less_def)
  qed
qed

lemma insertion_sort_contract:
  assumes swo: "strict_weak_order lt"
  shows "sort_contract insertion_sort lt"
proof -
  have "sorted_vec lt (insertion_sort (pair_less lt) vec)" for vec :: "('a \<times> 'b) list"
  proof (induction vec)
    case Nil
    show ?case by (simp add: insertion_sort_def sorted_vec_def)
  next
    case (Cons x vec)
    from sorted_insert_sorted [OF swo Cons, of x] show ?case
      by (simp add: insertion_sort_def)
  qed
  then show ?thesis by (simp add: sort_contract_def mset_insertion_sort)
qed

lemma runWorkers_groups:
  fixes client :: "('k1, 'v1, 'k2, 'v2, 'k3, 'v3) MapReduceClient"
  assumes swo: "strict_weak_order lt" and sort: "sort_contract sortf lt"
    and n1: "1 \<le> nThreads"
    and b1: "length input + nThreads \<le> 2 ^ 32"
    and b2: "card (key_classes lt (concat (map (map_fn client) input))) + nThreads \<le> 2 ^ 32"
  shows "\<exists>G. mset (concat G) = mset (concat (map (map_fn client) input))
          \<and> list_all (\<lambda>g. g \<noteq> []) G \<and> list_all (uniform_group lt) G
          \<and> descending_groups lt G
          \<and> (\<forall>ctx' mc rc.
                runWorkers sortf lt client nThreads mapSched reduceSched
                  (JobContext_init input out0 nThreads) = Some (ctx', mc, rc)
                \<longrightarrow> outputVec ctx' = out0 @ concat (map (reduce_fn client) G)
                    \<and> mc = [0..<length input] \<and> rc = [0..<length G])
          \<and> (fair_schedule nThreads (length input) mapSched
              \<and> fair_schedule nThreads (length G) reduceSched
                \<longrightarrow> (\<exists>r. runWorkers sortf lt client nThreads mapSched reduceSched
                          (JobContext_init input out0 nThreads) = Some r))"
proof -
  let ?ctx0 = "JobContext_init input out0 nThreads :: ('k1, 'v1, 'k2, 'v2, 'k3, 'v3) JobContext"
  obtain pcs1 c1 mc0 where m: "foldl (mapPhase_step client)
      (replicate nThreads Entry, ?ctx0, []) mapSched = (pcs1, c1, mc0)"
    by (rule prod_cases3)
  show ?thesis
  proof (cases "all_exited pcs1")
    case ex1: True
    from map_run_complete [OF b1 n1 m ex1]
    have mc: "mc0 = [0..<length input]"
      and v1: "mset (concat (intermediateVecs c1)) = mset (concat (map (map_fn client) input))"
      and l1: "length (intermediateVecs c1) = nThreads"
      and f1: "outputVec c1 = out0" "shuffledData c1 = []" "shuffleCounter c1 = 0"
        "nextReduceIndex c1 = 0"
      by simp_all
    from key_classes_mset [OF v1, of lt] b2
    have b2': "card (key_classes lt (concat (intermediateVecs c1))) + nThreads \<le> 2 ^ 32"
      by simp
    from runWorkers_from_map [OF swo sort n1 m ex1 l1 f1 b2', of reduceSched]
    obtain G where
      ms: "mset (concat G) = mset (concat (intermediateVecs c1))"
      and good: "list_all (\<lambda>g. g \<noteq> []) G" "list_all (uniform_group lt) G"
        "descending_groups lt G"
      and part: "\<forall>ctx' mc' rc.
                runWorkers sortf lt client nThreads mapSched reduceSched ?ctx0
                  = Some (ctx', mc', rc)
                \<longrightarrow> outputVec ctx' = out0 @ concat (map (reduce_fn client) G)
                    \<and> mc' = mc0 \<and> rc = [0..<length G]"
      and tot: "fair_schedule nThreads (length G) reduceSched
                \<longrightarrow> (\<exists>r. runWorkers sortf lt client nThreads mapSched reduceSched ?ctx0
                          = Some r)"
      by blast
    from ms v1 have "mset (concat G) = mset (concat (map (map_fn client) input))" by simp
    with good part tot mc show ?thesis by blast
  next
    case nex: False
    then have none: "runWorkers sortf lt client nThreads mapSched reduceSched ?ctx0 = None"
      using m by (simp add: runWorkers_def)
    have nf: "\<not> fair_schedule nThreads (length input) mapSched"
      using map_run_fair [OF b1, of mapSched client out0] m nex by auto
    let ?sortedall = "sortf (pair_less lt) (concat (map (map_fn client) input))"
    let ?c = "(JobContext_init input out0 1 :: ('k1, 'v1, 'k2, 'v2, 'k3, 'v3) JobContext)
                \<lparr>intermediateVecs := [?sortedall]\<rparr>"
    have s: "list_all (sorted_vec lt) (intermediateVecs ?c)"
      using sort by (simp add: sort_contract_def)
    from shufflePhase_groups [OF swo s] obtain G where
      "mset (concat G) = mset (concat (intermediateVecs ?c))"
      and good: "list_all (\<lambda>g. g \<noteq> []) G" "list_all (uniform_group lt) G"
        "descending_groups lt G"
      by blast
    moreover have "mset (concat (intermediateVecs ?c)) = mset (concat (map (map_fn client) input))"
      using sort by (simp add: sort_contract_def)
    ultimately have "mset (concat G) = mset (concat (map (map_fn client) input))" by simp
    with good none nf show ?thesis by (intro exI [of _ G]) simp
  qed
qed

lemma sum_list_mset_cong:
  "mset g = mset g' \<Longrightarrow> sum_list (map f g) = (sum_list (map f g') :: nat)"
proof -
  assume "mset g = mset g'"
  then have "image_mset f (mset g) = image_mset f (mset g')" by (rule arg_cong)
  then have "mset (map f g) = mset (map f g')" by (simp only: mset_map)
  then have "sum_mset (mset (map f g)) = sum_mset (mset (map f g'))" by (rule arg_cong)
  then show ?thesis by (simp only: sum_mset_sum_list)
qed

lemma counter_client_order_insensitive: "order_insensitive (<) (reduce_fn counter_client)"
proof -
  have "mset (reduce_fn counter_client g) = mset (reduce_fn counter_client g')"
    if ne: "g \<noteq> []" and un: "uniform_group (<) g" and ms: "mset g = mset g'"
    for g g' :: "(nat \<times> nat) list"
  proof -
    from ne obtain p ps where g: "g = p # ps" by (cases g) auto
    from ne ms have "g' \<noteq> []" by auto
    then obtain q qs where g': "g' = q # qs" by (cases g') auto
    from ms have "set g = set g'" by (rule mset_eq_setD)
    with g g' have "p \<in> set g" "q \<in> set g" by auto
    with un have "fst p = fst q" unfolding uniform_group_def by fastforce
    moreover from sum_list_mset_cong [OF ms, of snd]
    have "sum_list (map snd g) = sum_list (map snd g')" .
    ultimately show ?thesis unfolding g g' by (simp add: counter_client_def)
  qed
  then show ?thesis unfolding order_insensitive_def by blast
qed

lemma card_key_classes_le: "card (key_classes lt ps) \<le> length ps"
proof -
  have "card (key_classes lt ps) \<le> card (fst ` set ps)"
    unfolding key_classes_def by (rule card_image_le) simp
  also have "\<dots> \<le> card (set ps)" by (rule card_image_le) simp
  also have "\<dots> \<le> length ps" by (rule card_length)
  finally show ?thesis .
qed

lemma job_output_SomeD:
  "job_output r = Some out \<Longrightarrow> \<exists>ctx mc rc. r = Some (ctx, mc, rc) \<and> outputVec ctx = out"
  by (cases r) (auto simp: job_output_def)

text \<open>
  C5, amended. Let the key order be a strict weak order, the sort meet its contract, and
  the client's reduce be order-insensitive on nonempty groups of equivalent keys; let
  there be at least one worker, and let the input size and the number of equivalence
  classes of the emitted keys, each with the number of workers added, be at most
  \<open>2^32\<close>. Then every run of the job with \<open>nThreads\<close> workers that returns, under
  any schedule of the map and of the reduce phase, leaves in the output vector the same
  multiset of pairs as every run with one worker, and it has handed every input index to
  the client once; and the job returns under every pair of schedules that give each
  worker its steps.
\<close>

theorem output_independent_of_workers:
  fixes client :: "('k1, 'v1, 'k2, 'v2, 'k3, 'v3) MapReduceClient"
  assumes "strict_weak_order lt" and "sort_contract sortf lt"
    and "order_insensitive lt (reduce_fn client)"
    and "1 \<le> nThreads"
    and "length input + nThreads \<le> 2 ^ 32"
    and "card (key_classes lt (concat (map (map_fn client) input))) + nThreads \<le> 2 ^ 32"
  shows "(\<forall>mapSched reduceSched mapSched1 reduceSched1 ctxN mapCallsN reduceCallsN
             ctx1 mapCalls1 reduceCalls1.
            runWorkers sortf lt client nThreads mapSched reduceSched
              (JobContext_init input out0 nThreads) = Some (ctxN, mapCallsN, reduceCallsN)
            \<and> runWorkers sortf lt client 1 mapSched1 reduceSched1
              (JobContext_init input out0 1) = Some (ctx1, mapCalls1, reduceCalls1)
            \<longrightarrow> mset (outputVec ctxN) = mset (outputVec ctx1)
                \<and> mset mapCallsN = mset [0..<length input])
         \<and> (\<forall>mapSched reduceSched.
              fair_schedule nThreads (length input) mapSched
              \<and> fair_schedule nThreads
                  (card (key_classes lt (concat (map (map_fn client) input)))) reduceSched
              \<longrightarrow> (\<exists>r. runWorkers sortf lt client nThreads mapSched reduceSched
                        (JobContext_init input out0 nThreads) = Some r))"
proof (rule conjI; intro allI; rule impI)
  fix mapSched reduceSched mapSched1 reduceSched1 ctxN mapCallsN reduceCallsN
    and ctx1 :: "('k1, 'v1, 'k2, 'v2, 'k3, 'v3) JobContext" and mapCalls1 reduceCalls1
  assume runs: "runWorkers sortf lt client nThreads mapSched reduceSched
              (JobContext_init input out0 nThreads) = Some (ctxN, mapCallsN, reduceCallsN)
            \<and> runWorkers sortf lt client 1 mapSched1 reduceSched1
              (JobContext_init input out0 1) = Some (ctx1, mapCalls1, reduceCalls1)"
  from runWorkers_groups [OF assms(1,2,4,5,6), of mapSched reduceSched out0] runs
  obtain G where
    o: "outputVec ctxN = out0 @ concat (map (reduce_fn client) G)"
    and m: "mset (concat G) = mset (concat (map (map_fn client) input))"
    and g: "list_all (\<lambda>g. g \<noteq> []) G" "list_all (uniform_group lt) G" "descending_groups lt G"
    and c: "mapCallsN = [0..<length input]"
    by blast
  have one: "(1::nat) \<le> 1" by simp
  from assms(4,5) have b1: "length input + 1 \<le> 2 ^ 32" by linarith
  from assms(4,6)
  have b2: "card (key_classes lt (concat (map (map_fn client) input))) + 1 \<le> 2 ^ 32"
    by linarith
  from runWorkers_groups [OF assms(1,2) one b1 b2, of mapSched1 reduceSched1 out0] runs
  obtain G' where
    o': "outputVec ctx1 = out0 @ concat (map (reduce_fn client) G')"
    and m': "mset (concat G') = mset (concat (map (map_fn client) input))"
    and g': "list_all (\<lambda>g. g \<noteq> []) G'" "list_all (uniform_group lt) G'"
      "descending_groups lt G'"
    by blast
  from m m' have "mset (concat G) = mset (concat G')" by simp
  from groups_unique [OF assms(1) g g' this]
  have "list_all2 (\<lambda>g g'. mset g = mset g') G G'" .
  from reduce_output_mset [OF assms(3) this g(1,2)] o o' c
  show "mset (outputVec ctxN) = mset (outputVec ctx1)
        \<and> mset mapCallsN = mset [0..<length input]" by simp
next
  fix mapSched reduceSched
  assume fair: "fair_schedule nThreads (length input) mapSched
              \<and> fair_schedule nThreads
                  (card (key_classes lt (concat (map (map_fn client) input)))) reduceSched"
  from runWorkers_groups [OF assms(1,2,4,5,6), of mapSched reduceSched out0]
  obtain G where
    m: "mset (concat G) = mset (concat (map (map_fn client) input))"
    and g: "list_all (\<lambda>g. g \<noteq> []) G" "list_all (uniform_group lt) G" "descending_groups lt G"
    and tot: "fair_schedule nThreads (length input) mapSched
              \<and> fair_schedule nThreads (length G) reduceSched
                \<longrightarrow> (\<exists>r. runWorkers sortf lt client nThreads mapSched reduceSched
                          (JobContext_init input out0 nThreads) = Some r)"
    by blast
  from card_key_classes_groups [OF assms(1) g] key_classes_mset [OF m, of lt]
  have "length G = card (key_classes lt (concat (map (map_fn client) input)))" by simp
  with tot fair
  show "\<exists>r. runWorkers sortf lt client nThreads mapSched reduceSched
              (JobContext_init input out0 nThreads) = Some r" by simp
qed

lemma tie_counter_two:
  "job_output (runWorkers insertion_sort (<) counter_client 2 [0, 1, 1, 0, 0, 1, 0, 1]
     [0, 1, 0, 1, 0, 1] (JobContext_init tie_input [] 2)) = Some [(1, 30)]"
  by code_simp

lemma tie_counter_one:
  "job_output (runWorkers insertion_sort (<) counter_client 1 [0, 0, 0, 0] [0, 0, 0]
     (JobContext_init tie_input [] 1)) = Some [(1, 30)]"
  by code_simp

lemma tie_counter_classes:
  "card (key_classes (<) (concat (map (map_fn counter_client) tie_input))) = 1"
proof -
  have "key_classes (<) (concat (map (map_fn counter_client) tie_input)) = {{1 :: nat}}"
    by (auto simp: key_classes_def counter_client_def tie_input_def equiv_key_def)
  then show ?thesis by simp
qed

lemma tie_fair: "fair_schedule 2 1 [0, 1, 0, 1, 0, 1]"
  by (simp add: fair_schedule_def upt_rec)

theorem output_independent_of_workers_witness:
  "strict_weak_order ((<) :: nat \<Rightarrow> nat \<Rightarrow> bool)
   \<and> sort_contract (insertion_sort :: (nat \<times> nat \<Rightarrow> nat \<times> nat \<Rightarrow> bool) \<Rightarrow> _) (<)
   \<and> order_insensitive (<) (reduce_fn counter_client)
   \<and> (1 :: nat) \<le> 2
   \<and> length tie_input + 2 \<le> 2 ^ 32
   \<and> card (key_classes (<) (concat (map (map_fn counter_client) tie_input))) + 2 \<le> 2 ^ 32
   \<and> fair_schedule 2 (length tie_input) [0, 1, 1, 0, 0, 1, 0, 1]
   \<and> fair_schedule 2 (card (key_classes (<) (concat (map (map_fn counter_client) tie_input))))
       [0, 1, 0, 1, 0, 1]
   \<and> (\<exists>ctxN mcN rcN ctx1 mc1 rc1.
         runWorkers insertion_sort (<) counter_client 2 [0, 1, 1, 0, 0, 1, 0, 1]
           [0, 1, 0, 1, 0, 1] (JobContext_init tie_input [] 2) = Some (ctxN, mcN, rcN)
         \<and> runWorkers insertion_sort (<) counter_client 1 [0, 0, 0, 0] [0, 0, 0]
             (JobContext_init tie_input [] 1) = Some (ctx1, mc1, rc1)
         \<and> outputVec ctxN = [(1, 30)]
         \<and> mset (outputVec ctxN) = mset (outputVec ctx1)
         \<and> mset mcN = mset [0..<length tie_input])
   \<and> (\<exists>r. runWorkers insertion_sort (<) counter_client 2 [0, 1, 1, 0, 0, 1, 0, 1]
             [0, 1, 0, 1, 0, 1] (JobContext_init tie_input [] 2) = Some r)"
proof -
  have sc: "sort_contract (insertion_sort :: (nat \<times> nat \<Rightarrow> nat \<times> nat \<Rightarrow> bool) \<Rightarrow> _) (<)"
    by (rule insertion_sort_contract [OF swo_nat])
  have one: "(1 :: nat) \<le> 2" by simp
  have b1: "length tie_input + 2 \<le> 2 ^ 32" by (simp add: tie_input_def)
  have b2: "card (key_classes (<) (concat (map (map_fn counter_client) tie_input))) + 2
              \<le> 2 ^ 32"
    by (simp add: tie_counter_classes)
  have f1: "fair_schedule 2 (length tie_input) [0, 1, 1, 0, 0, 1, 0, 1]"
    by (simp add: fair_schedule_def upt_rec tie_input_def)
  have f2: "fair_schedule 2
      (card (key_classes (<) (concat (map (map_fn counter_client) tie_input))))
      [0, 1, 0, 1, 0, 1]"
    using tie_fair by (simp add: tie_counter_classes)
  note inst = output_independent_of_workers [OF swo_nat sc counter_client_order_insensitive
      one b1 b2, of "[]"]
  from job_output_SomeD [OF tie_counter_two] obtain ctxN mcN rcN where
    rN: "runWorkers insertion_sort (<) counter_client 2 [0, 1, 1, 0, 0, 1, 0, 1]
           [0, 1, 0, 1, 0, 1] (JobContext_init tie_input [] 2) = Some (ctxN, mcN, rcN)"
    and oN: "outputVec ctxN = [(1, 30)]" by blast
  from job_output_SomeD [OF tie_counter_one] obtain ctx1 mc1 rc1 where
    r1: "runWorkers insertion_sort (<) counter_client 1 [0, 0, 0, 0] [0, 0, 0]
           (JobContext_init tie_input [] 1) = Some (ctx1, mc1, rc1)" by blast
  from inst rN r1
  have eq: "mset (outputVec ctxN) = mset (outputVec ctx1)"
    and calls: "mset mcN = mset [0..<length tie_input]" by blast+
  from inst f1 f2
  have ret: "\<exists>r. runWorkers insertion_sort (<) counter_client 2 [0, 1, 1, 0, 0, 1, 0, 1]
             [0, 1, 0, 1, 0, 1] (JobContext_init tie_input [] 2) = Some r" by blast
  from rN r1 oN eq calls
  have inner: "\<exists>ctxN mcN rcN ctx1 mc1 rc1.
         runWorkers insertion_sort (<) counter_client 2 [0, 1, 1, 0, 0, 1, 0, 1]
           [0, 1, 0, 1, 0, 1] (JobContext_init tie_input [] 2) = Some (ctxN, mcN, rcN)
         \<and> runWorkers insertion_sort (<) counter_client 1 [0, 0, 0, 0] [0, 0, 0]
             (JobContext_init tie_input [] 1) = Some (ctx1, mc1, rc1)
         \<and> outputVec ctxN = [(1, 30)]
         \<and> mset (outputVec ctxN) = mset (outputVec ctx1)
         \<and> mset mcN = mset [0..<length tie_input]"
    by blast
  show ?thesis
    by (intro conjI) (fact swo_nat sc counter_client_order_insensitive one b1 b2 f1 f2 inner ret)+
qed

lemma map_loop_calls:
  fixes c :: "('k1, 'v1, 'k2, 'v2, 'k3, 'v3) JobContext"
  assumes t: "t < length pcs" and l: "pcs ! t = Loop" and lb: "length input < 2 ^ 32"
  shows "inputVec c = input \<Longrightarrow> nextInputIndex c = of_nat i \<Longrightarrow> i + j \<le> length input \<Longrightarrow>
     \<exists>c'. foldl (mapPhase_step client) (pcs, c, calls) (replicate j t)
            = (pcs, c', calls @ [i..<i + j])
       \<and> inputVec c' = input \<and> nextInputIndex c' = of_nat (i + j)
       \<and> intermediateVecs c'
           = (intermediateVecs c)[t := intermediateVecs c ! t
                @ concat (map (map_fn client) (take j (drop i input)))]
       \<and> outputVec c' = outputVec c \<and> shuffledData c' = shuffledData c
       \<and> shuffleCounter c' = shuffleCounter c \<and> nextReduceIndex c' = nextReduceIndex c"
proof (induction j arbitrary: c calls i)
  case 0
  then show ?case by simp
next
  case (Suc j)
  let ?V = "intermediateVecs c"
  let ?c1 = "c\<lparr>nextInputIndex := nextInputIndex c + 1,
              intermediateVecs := ?V[t := ?V ! t @ map_fn client (input ! i)],
              stateManager := incrementProcessed (stateManager c)\<rparr>"
  from Suc.prems have i: "i < length input" by simp
  with lb have "i < 2 ^ 32" by simp
  then have ui: "unat (nextInputIndex c) = i"
    by (simp only: Suc.prems(2) unat_of_nat_32)
  have st: "mapPhase_step client (pcs, c, calls) t = (pcs, ?c1, calls @ [i])"
    using t l i by (simp add: mapPhase_step_def mapPhase_iter_cases [OF Suc.prems(1) ui])
  have p1: "inputVec ?c1 = input" using Suc.prems(1) by simp
  have p2: "nextInputIndex ?c1 = of_nat (Suc i)" using Suc.prems(2) by simp
  from Suc.prems(3) have p3: "Suc i + j \<le> length input" by simp
  from Suc.IH [OF p1 p2 p3, of "calls @ [i]"] obtain c' where
    run: "foldl (mapPhase_step client) (pcs, ?c1, calls @ [i]) (replicate j t)
            = (pcs, c', (calls @ [i]) @ [Suc i..<Suc i + j])"
    and q: "inputVec c' = input" "nextInputIndex c' = of_nat (Suc i + j)"
      "outputVec c' = outputVec ?c1" "shuffledData c' = shuffledData ?c1"
      "shuffleCounter c' = shuffleCounter ?c1" "nextReduceIndex c' = nextReduceIndex ?c1"
    and v: "intermediateVecs c'
           = (intermediateVecs ?c1)[t := intermediateVecs ?c1 ! t
                @ concat (map (map_fn client) (take j (drop (Suc i) input)))]"
    by blast
  have u: "[i..<i + Suc j] = i # [Suc i..<Suc i + j]"
    using upt_conv_Cons [of i "i + Suc j"] by simp
  have d: "take (Suc j) (drop i input) = input ! i # take j (drop (Suc i) input)"
    using Cons_nth_drop_Suc [OF i] by (simp add: take_Suc_Cons [symmetric] del: take_Suc_Cons)
  have v': "intermediateVecs c'
           = ?V[t := ?V ! t @ concat (map (map_fn client) (take (Suc j) (drop i input)))]"
    unfolding v d by (cases "t < length ?V") (simp_all add: list_update_beyond)
  have r: "foldl (mapPhase_step client) (pcs, c, calls) (replicate (Suc j) t)
            = (pcs, c', calls @ [i..<i + Suc j])"
    unfolding u by (simp add: st run)
  from q have q': "inputVec c' = input" "nextInputIndex c' = of_nat (i + Suc j)"
      "outputVec c' = outputVec c" "shuffledData c' = shuffledData c"
      "shuffleCounter c' = shuffleCounter c" "nextReduceIndex c' = nextReduceIndex c"
    by simp_all
  show ?case
    by (rule exI [of _ c'], intro conjI) (fact r q' v')+
qed

lemma map_worker_alone:
  fixes c :: "('k1, 'v1, 'k2, 'v2, 'k3, 'v3) JobContext"
  assumes t: "t < length pcs" and l: "pcs ! t = Entry" and lb: "length input < 2 ^ 32"
    and inp: "inputVec c = input" and idx: "nextInputIndex c = 0"
  shows "\<exists>c'. foldl (mapPhase_step client) (pcs, c, calls)
                 (t # replicate (length input) t @ [t])
            = (pcs[t := Exited], c', calls @ [0..<length input])
       \<and> inputVec c' = input \<and> nextInputIndex c' = of_nat (length input) + 1
       \<and> intermediateVecs c'
           = (intermediateVecs c)[t := intermediateVecs c ! t
                @ concat (map (map_fn client) input)]
       \<and> outputVec c' = outputVec c \<and> shuffledData c' = shuffledData c
       \<and> shuffleCounter c' = shuffleCounter c \<and> nextReduceIndex c' = nextReduceIndex c"
proof -
  let ?c1 = "mapPhase_enter t c"
  let ?pcs = "pcs[t := Loop]"
  have s1: "mapPhase_step client (pcs, c, calls) t = (?pcs, ?c1, calls)"
    using t l by (simp add: mapPhase_step_def)
  have t': "t < length ?pcs" and l': "?pcs ! t = Loop" using t by simp_all
  have e: "inputVec ?c1 = input" "nextInputIndex ?c1 = of_nat 0"
    "intermediateVecs ?c1 = intermediateVecs c" "outputVec ?c1 = outputVec c"
    "shuffledData ?c1 = shuffledData c" "shuffleCounter ?c1 = shuffleCounter c"
    "nextReduceIndex ?c1 = nextReduceIndex c"
    using inp idx by (simp_all add: mapPhase_enter_def)
  have "0 + length input \<le> length input" by simp
  from map_loop_calls [OF t' l' lb e(1,2) this, of client calls] obtain c2 where
    s2: "foldl (mapPhase_step client) (?pcs, ?c1, calls) (replicate (length input) t)
            = (?pcs, c2, calls @ [0..<length input])"
    and q: "inputVec c2 = input" "nextInputIndex c2 = of_nat (length input)"
      "outputVec c2 = outputVec ?c1" "shuffledData c2 = shuffledData ?c1"
      "shuffleCounter c2 = shuffleCounter ?c1" "nextReduceIndex c2 = nextReduceIndex ?c1"
    and v: "intermediateVecs c2
           = (intermediateVecs ?c1)[t := intermediateVecs ?c1 ! t
                @ concat (map (map_fn client) input)]"
    by auto
  let ?c3 = "c2\<lparr>nextInputIndex := nextInputIndex c2 + 1\<rparr>"
  have ui: "unat (nextInputIndex c2) = length input"
    by (simp only: q(2) unat_of_nat_32 [OF lb])
  have s3: "mapPhase_step client (?pcs, c2, calls @ [0..<length input]) t
              = (pcs[t := Exited], ?c3, calls @ [0..<length input])"
    using t by (simp add: mapPhase_step_def mapPhase_iter_cases [OF q(1) ui])
  have r: "foldl (mapPhase_step client) (pcs, c, calls)
                 (t # replicate (length input) t @ [t])
            = (pcs[t := Exited], ?c3, calls @ [0..<length input])"
    by (simp only: foldl_Cons foldl_append foldl_Nil s1 s2 s3)
  have q': "inputVec ?c3 = input" "nextInputIndex ?c3 = of_nat (length input) + 1"
    "intermediateVecs ?c3
           = (intermediateVecs c)[t := intermediateVecs c ! t
                @ concat (map (map_fn client) input)]"
    "outputVec ?c3 = outputVec c" "shuffledData ?c3 = shuffledData c"
    "shuffleCounter ?c3 = shuffleCounter c" "nextReduceIndex ?c3 = nextReduceIndex c"
    using q v e by simp_all
  show ?thesis
    by (rule exI [of _ ?c3], intro conjI) (fact r q')+
qed

lemma replicate_split: "0 < r \<Longrightarrow> replicate (r + 1) t = t # replicate (r - 1) t @ [t]"
  by (cases r) (simp_all add: replicate_append_same)

lemma count_list_replicate: "count_list (replicate m x) x = m"
  by (induction m) simp_all

lemma key_classes_replicate: "0 < m \<Longrightarrow> card (key_classes lt (replicate m a)) = 1"
  by (simp add: key_classes_def)

lemma mset_replicate_eq: "mset g = mset (replicate m a) \<Longrightarrow> g = replicate m a"
proof -
  assume ms: "mset g = mset (replicate m a)"
  then have "set g = set (replicate m a)" by (rule mset_eq_setD)
  then have "\<forall>y\<in>set g. y = a" by auto
  then have "replicate (length g) a = g" by (rule replicate_length_same)
  moreover from ms have "length g = m" using mset_eq_length by fastforce
  ultimately show ?thesis by simp
qed

lemma single_group:
  assumes swo: "strict_weak_order lt"
    and good: "list_all (\<lambda>g. g \<noteq> []) G" "list_all (uniform_group lt) G"
      "descending_groups lt G"
    and ms: "mset (concat G) = mset (replicate m a)" and m: "0 < m"
  shows "G = [replicate m a]"
proof -
  from card_key_classes_groups [OF swo good] key_classes_mset [OF ms, of lt]
    key_classes_replicate [OF m, of lt a]
  have "length G = 1" by simp
  then obtain g where G: "G = [g]" by (cases G) auto
  with ms have "mset g = mset (replicate m a)" by simp
  then have "g = replicate m a" by (rule mset_replicate_eq)
  with G show ?thesis by simp
qed

lemma counter_reduce_replicate:
  "0 < m \<Longrightarrow> reduce_fn counter_client (replicate m (1, 10)) = [(1, 10 * m)]"
  by (cases m) (simp_all add: counter_client_def sum_list_replicate)

lemma counter_map: "concat (map (map_fn counter_client) input) = input"
  by (simp add: counter_client_def)

lemma long_input_bounds:
  "0 < dispatch_range" "0 < dispatch_range - 1" "dispatch_range - 1 < 2 ^ 32"
  "dispatch_range - 1 + 1 \<le> 2 ^ 32"
  "of_nat (dispatch_range - 1) + 1 = (0 :: 32 word)"
  "dispatch_range - 1 + 2 = 2 ^ 32 + 1"
  by (simp_all add: dispatch_range_def)

lemma long_input_length: "length long_input = dispatch_range - 1"
  by (simp add: long_input_def)

lemma long_one:
  "job_output (runWorkers insertion_sort (<) counter_client 1
      (replicate (dispatch_range + 1) 0) [0, 0, 0] (JobContext_init long_input [] 1))
     = Some [(1, 10 * (dispatch_range - 1))]"
proof -
  define n where "n = dispatch_range - 1"
  have li: "long_input = replicate n (1, 10)" by (simp add: long_input_def n_def)
  have n0: "0 < n" and n1: "n + 1 \<le> 2 ^ 32"
    using long_input_bounds by (simp_all add: n_def)
  have sc: "sort_contract (insertion_sort :: (nat \<times> nat \<Rightarrow> nat \<times> nat \<Rightarrow> bool) \<Rightarrow> _) (<)"
    by (rule insertion_sort_contract [OF swo_nat])
  have one: "(1 :: nat) \<le> 1" by simp
  have b1: "length long_input + 1 \<le> 2 ^ 32" using n1 by (simp add: li)
  have k: "card (key_classes (<) (concat (map (map_fn counter_client) long_input))) = 1"
    unfolding counter_map li by (rule key_classes_replicate [OF n0])
  have b2: "card (key_classes (<) (concat (map (map_fn counter_client) long_input))) + 1
              \<le> 2 ^ 32"
    by (simp add: k)
  have "dispatch_range + 1 = n + 2" using long_input_bounds(1) by (simp add: n_def)
  then have f1: "fair_schedule 1 (length long_input) (replicate (dispatch_range + 1) 0)"
    by (simp add: fair_schedule_def count_list_replicate li)
  from runWorkers_groups [OF swo_nat sc one b1 b2,
      of "replicate (dispatch_range + 1) 0" "[0, 0, 0]" "[]"]
  obtain G where
    ms: "mset (concat G) = mset (concat (map (map_fn counter_client) long_input))"
    and good: "list_all (\<lambda>g. g \<noteq> []) G" "list_all (uniform_group (<)) G"
      "descending_groups (<) G"
    and part: "\<forall>ctx' mc rc.
                runWorkers insertion_sort (<) counter_client 1
                  (replicate (dispatch_range + 1) 0) [0, 0, 0]
                  (JobContext_init long_input [] 1) = Some (ctx', mc, rc)
                \<longrightarrow> outputVec ctx' = [] @ concat (map (reduce_fn counter_client) G)
                    \<and> mc = [0..<length long_input] \<and> rc = [0..<length G]"
    and tot: "fair_schedule 1 (length long_input) (replicate (dispatch_range + 1) 0)
              \<and> fair_schedule 1 (length G) [0, 0, 0]
                \<longrightarrow> (\<exists>r. runWorkers insertion_sort (<) counter_client 1
                          (replicate (dispatch_range + 1) 0) [0, 0, 0]
                          (JobContext_init long_input [] 1) = Some r)"
    by blast
  from ms have "mset (concat G) = mset (replicate n (1, 10))"
    by (simp only: counter_map li)
  from single_group [OF swo_nat good this n0] have G: "G = [replicate n (1, 10)]" .
  have "fair_schedule 1 (length G) [0, 0, 0]" by (simp add: G fair_schedule_def)
  with tot f1 obtain ctx' mc rc where
    r: "runWorkers insertion_sort (<) counter_client 1
                          (replicate (dispatch_range + 1) 0) [0, 0, 0]
                          (JobContext_init long_input [] 1) = Some (ctx', mc, rc)"
    by auto
  with part have "outputVec ctx' = [] @ concat (map (reduce_fn counter_client) G)" by blast
  then have "outputVec ctx' = [(1, 10 * n)]"
    using counter_reduce_replicate [OF n0] by (simp add: G)
  with r show ?thesis by (simp add: job_output_def n_def)
qed

lemma long_two:
  "job_output (runWorkers insertion_sort (<) counter_client 2
      (replicate (dispatch_range + 1) 0 @ replicate (dispatch_range + 1) 1) [0, 1, 0, 1, 0, 1]
      (JobContext_init long_input [] 2))
     = Some [(1, 20 * (dispatch_range - 1))]"
proof -
  define n where "n = dispatch_range - 1"
  have li: "long_input = replicate n (1, 10)" by (simp add: long_input_def n_def)
  have len: "length long_input = n" by (simp add: li)
  have n0: "0 < n" and lb: "length long_input < 2 ^ 32"
    and wrap: "of_nat (length long_input) + 1 = (0 :: 32 word)"
    using long_input_bounds by (simp_all add: n_def long_input_length)
  have sc: "sort_contract (insertion_sort :: (nat \<times> nat \<Rightarrow> nat \<times> nat \<Rightarrow> bool) \<Rightarrow> _) (<)"
    by (rule insertion_sort_contract [OF swo_nat])
  let ?c0 = "JobContext_init long_input [] 2 :: (nat, nat, nat, nat, nat, nat) JobContext"
  have sp: "replicate (dispatch_range + 1) t = t # replicate (length long_input) t @ [t]"
    for t :: nat
    using replicate_split [OF long_input_bounds(1), of t] by (simp only: long_input_length)
  have c0: "inputVec ?c0 = long_input" "nextInputIndex ?c0 = 0"
    "intermediateVecs ?c0 = [[], []]" "outputVec ?c0 = []" "shuffledData ?c0 = []"
    "shuffleCounter ?c0 = 0" "nextReduceIndex ?c0 = 0"
    by (simp_all add: JobContext_init_def numeral_2_eq_2)
  have "0 < length [Entry, Entry]" "[Entry, Entry] ! 0 = Entry" by simp_all
  from map_worker_alone [OF this lb c0(1,2), of counter_client "[]"] obtain c1 where
    r1: "foldl (mapPhase_step counter_client) ([Entry, Entry], ?c0, [])
           (0 # replicate (length long_input) 0 @ [0])
          = ([Exited, Entry], c1, [0..<length long_input])"
    and c1: "inputVec c1 = long_input" "nextInputIndex c1 = 0"
      "intermediateVecs c1 = [long_input, []]" "outputVec c1 = []" "shuffledData c1 = []"
      "shuffleCounter c1 = 0" "nextReduceIndex c1 = 0"
    by (auto simp: c0 wrap counter_map)
  have "1 < length [Exited, Entry]" "[Exited, Entry] ! 1 = Entry" by simp_all
  from map_worker_alone [OF this lb c1(1,2), of counter_client "[0..<length long_input]"]
  obtain c2 where
    r2: "foldl (mapPhase_step counter_client) ([Exited, Entry], c1, [0..<length long_input])
           (1 # replicate (length long_input) 1 @ [1])
          = ([Exited, Exited], c2, [0..<length long_input] @ [0..<length long_input])"
    and c2: "intermediateVecs c2 = [long_input, long_input]" "outputVec c2 = []"
      "shuffledData c2 = []" "shuffleCounter c2 = 0" "nextReduceIndex c2 = 0"
    by (auto simp: c1 counter_map)
  have rep: "replicate 2 Entry = [Entry, Entry]" by (simp add: numeral_2_eq_2)
  have m: "foldl (mapPhase_step counter_client) (replicate 2 Entry, ?c0, [])
             (replicate (dispatch_range + 1) 0 @ replicate (dispatch_range + 1) 1)
           = ([Exited, Exited], c2, [0..<length long_input] @ [0..<length long_input])"
    by (simp only: foldl_append sp r1 r2 rep)
  have ex: "all_exited [Exited, Exited]" by (simp add: all_exited_def)
  have l2: "length (intermediateVecs c2) = 2" by (simp add: c2)
  have cc: "concat (intermediateVecs c2) = replicate (n + n) (1, 10)"
    by (simp add: c2 li replicate_add)
  have nn: "0 < n + n" using n0 by simp
  have b2: "card (key_classes (<) (concat (intermediateVecs c2))) + 2 \<le> 2 ^ 32"
    by (simp add: cc key_classes_replicate [OF nn])
  have two: "(1 :: nat) \<le> 2" by simp
  from runWorkers_from_map [OF swo_nat sc two m ex l2 c2(2-5) b2, of "[0, 1, 0, 1, 0, 1]"]
  obtain G where
    ms: "mset (concat G) = mset (concat (intermediateVecs c2))"
    and good: "list_all (\<lambda>g. g \<noteq> []) G" "list_all (uniform_group (<)) G"
      "descending_groups (<) G"
    and part: "\<forall>ctx' mc' rc.
                runWorkers insertion_sort (<) counter_client 2
                  (replicate (dispatch_range + 1) 0 @ replicate (dispatch_range + 1) 1)
                  [0, 1, 0, 1, 0, 1] ?c0 = Some (ctx', mc', rc)
                \<longrightarrow> outputVec ctx' = [] @ concat (map (reduce_fn counter_client) G)
                    \<and> mc' = [0..<length long_input] @ [0..<length long_input]
                    \<and> rc = [0..<length G]"
    and tot: "fair_schedule 2 (length G) [0, 1, 0, 1, 0, 1]
                \<longrightarrow> (\<exists>r. runWorkers insertion_sort (<) counter_client 2
                  (replicate (dispatch_range + 1) 0 @ replicate (dispatch_range + 1) 1)
                  [0, 1, 0, 1, 0, 1] ?c0 = Some r)"
    by blast
  from ms have "mset (concat G) = mset (replicate (n + n) (1, 10))" by (simp only: cc)
  from single_group [OF swo_nat good this nn] have G: "G = [replicate (n + n) (1, 10)]" .
  have "fair_schedule 2 (length G) [0, 1, 0, 1, 0, 1]"
    by (simp add: G fair_schedule_def upt_rec)
  with tot obtain ctx' mc rc where
    r: "runWorkers insertion_sort (<) counter_client 2
                  (replicate (dispatch_range + 1) 0 @ replicate (dispatch_range + 1) 1)
                  [0, 1, 0, 1, 0, 1] ?c0 = Some (ctx', mc, rc)"
    by auto
  with part have "outputVec ctx' = [] @ concat (map (reduce_fn counter_client) G)" by blast
  then have "outputVec ctx' = [(1, 20 * n)]"
    using counter_reduce_replicate [OF nn] by (simp add: G)
  with r show ?thesis by (simp add: job_output_def n_def)
qed

lemma reduce_loop_block:
  fixes c :: "('k1, 'v1, 'k2, 'v2, 'k3, 'v3) JobContext"
  assumes t: "t < length pcs" and l: "pcs ! t = Loop" and lb: "length SD < 2 ^ 32"
  shows "shuffledData c = SD \<Longrightarrow> unat (shuffleCounter c) = length SD \<Longrightarrow>
     nextReduceIndex c = of_nat i \<Longrightarrow> i + j \<le> length SD \<Longrightarrow>
     \<exists>c'. foldl (reducePhase_step client) (pcs, c, calls) (replicate j t)
            = (pcs, c', calls @ [i..<i + j])
       \<and> shuffledData c' = SD \<and> shuffleCounter c' = shuffleCounter c
       \<and> nextReduceIndex c' = of_nat (i + j)
       \<and> outputVec c' = outputVec c @ concat (map (reduce_fn client) (take j (drop i SD)))"
proof (induction j arbitrary: c calls i)
  case 0
  then show ?case by simp
next
  case (Suc j)
  let ?c1 = "c\<lparr>nextReduceIndex := nextReduceIndex c + 1,
              outputVec := outputVec c @ reduce_fn client (shuffledData c ! i),
              stateManager := incrementProcessed (stateManager c)\<rparr>"
  from Suc.prems have i: "i < length SD" by simp
  with lb have "i < 2 ^ 32" by simp
  then have ui: "unat (nextReduceIndex c) = i"
    by (simp only: Suc.prems(3) unat_of_nat_32)
  from Suc.prems(1) have sdl: "length (shuffledData c) = length SD" by simp
  have st: "reducePhase_step client (pcs, c, calls) t = (pcs, ?c1, calls @ [i])"
    using t l i
    by (simp add: reducePhase_step_def reducePhase_iter_cases [OF sdl Suc.prems(2) ui])
  have p1: "shuffledData ?c1 = SD" using Suc.prems(1) by simp
  have p2: "unat (shuffleCounter ?c1) = length SD" using Suc.prems(2) by simp
  have p3: "nextReduceIndex ?c1 = of_nat (Suc i)" using Suc.prems(3) by simp
  from Suc.prems(4) have p4: "Suc i + j \<le> length SD" by simp
  from Suc.IH [OF p1 p2 p3 p4, of "calls @ [i]"] obtain c' where
    run: "foldl (reducePhase_step client) (pcs, ?c1, calls @ [i]) (replicate j t)
            = (pcs, c', (calls @ [i]) @ [Suc i..<Suc i + j])"
    and q: "shuffledData c' = SD" "shuffleCounter c' = shuffleCounter ?c1"
      "nextReduceIndex c' = of_nat (Suc i + j)"
    and v: "outputVec c' = outputVec ?c1
              @ concat (map (reduce_fn client) (take j (drop (Suc i) SD)))"
    by blast
  have u: "[i..<i + Suc j] = i # [Suc i..<Suc i + j]"
    using upt_conv_Cons [of i "i + Suc j"] by simp
  have d: "take (Suc j) (drop i SD) = SD ! i # take j (drop (Suc i) SD)"
    using Cons_nth_drop_Suc [OF i] by (simp add: take_Suc_Cons [symmetric] del: take_Suc_Cons)
  have v': "outputVec c'
              = outputVec c @ concat (map (reduce_fn client) (take (Suc j) (drop i SD)))"
    unfolding v d using Suc.prems(1) by simp
  have r: "foldl (reducePhase_step client) (pcs, c, calls) (replicate (Suc j) t)
            = (pcs, c', calls @ [i..<i + Suc j])"
    unfolding u by (simp add: st run)
  from q have q': "shuffledData c' = SD" "shuffleCounter c' = shuffleCounter c"
      "nextReduceIndex c' = of_nat (i + Suc j)"
    by simp_all
  show ?case
    by (rule exI [of _ c'], intro conjI) (fact r q' v')+
qed

lemma reduce_worker_alone:
  fixes c :: "('k1, 'v1, 'k2, 'v2, 'k3, 'v3) JobContext"
  assumes t: "t < length pcs" and l: "pcs ! t = Entry" and lb: "length SD < 2 ^ 32"
    and sd: "shuffledData c = SD" and cnt: "unat (shuffleCounter c) = length SD"
    and idx: "nextReduceIndex c = 0"
  shows "\<exists>c'. foldl (reducePhase_step client) (pcs, c, calls)
                 (t # replicate (length SD) t @ [t])
            = (pcs[t := Exited], c', calls @ [0..<length SD])
       \<and> shuffledData c' = SD \<and> shuffleCounter c' = shuffleCounter c
       \<and> nextReduceIndex c' = of_nat (length SD) + 1
       \<and> outputVec c' = outputVec c @ concat (map (reduce_fn client) SD)"
proof -
  let ?pcs = "pcs[t := Loop]"
  have s1: "reducePhase_step client (pcs, c, calls) t = (?pcs, c, calls)"
    using t l by (simp add: reducePhase_step_def)
  have t': "t < length ?pcs" and l': "?pcs ! t = Loop" using t by simp_all
  have i0: "nextReduceIndex c = of_nat 0" using idx by simp
  have "0 + length SD \<le> length SD" by simp
  from reduce_loop_block [OF t' l' lb sd cnt i0 this, of client calls] obtain c2 where
    s2: "foldl (reducePhase_step client) (?pcs, c, calls) (replicate (length SD) t)
            = (?pcs, c2, calls @ [0..<length SD])"
    and q: "shuffledData c2 = SD" "shuffleCounter c2 = shuffleCounter c"
      "nextReduceIndex c2 = of_nat (length SD)"
      "outputVec c2 = outputVec c @ concat (map (reduce_fn client) SD)"
    by auto
  let ?c3 = "c2\<lparr>nextReduceIndex := nextReduceIndex c2 + 1\<rparr>"
  have ui: "unat (nextReduceIndex c2) = length SD"
    by (simp only: q(3) unat_of_nat_32 [OF lb])
  from q(1) have sdl: "length (shuffledData c2) = length SD" by simp
  from q(2) cnt have cnt2: "unat (shuffleCounter c2) = length SD" by simp
  have s3: "reducePhase_step client (?pcs, c2, calls @ [0..<length SD]) t
              = (pcs[t := Exited], ?c3, calls @ [0..<length SD])"
    using t by (simp add: reducePhase_step_def reducePhase_iter_cases [OF sdl cnt2 ui])
  have r: "foldl (reducePhase_step client) (pcs, c, calls)
                 (t # replicate (length SD) t @ [t])
            = (pcs[t := Exited], ?c3, calls @ [0..<length SD])"
    by (simp only: foldl_Cons foldl_append foldl_Nil s1 s2 s3)
  have q': "shuffledData ?c3 = SD" "shuffleCounter ?c3 = shuffleCounter c"
    "nextReduceIndex ?c3 = of_nat (length SD) + 1"
    "outputVec ?c3 = outputVec c @ concat (map (reduce_fn client) SD)"
    using q by simp_all
  show ?thesis
    by (rule exI [of _ ?c3], intro conjI) (fact r q')+
qed

lemma runWorkers_to_reduce:
  fixes client :: "('k1, 'v1, 'k2, 'v2, 'k3, 'v3) MapReduceClient"
  assumes swo: "strict_weak_order lt" and sort: "sort_contract sortf lt"
    and m: "foldl (mapPhase_step client) (replicate nThreads Entry, ctx0, []) mapSched
              = (pcs1, c1, mc)"
    and ex1: "all_exited pcs1"
    and l1: "length (intermediateVecs c1) = nThreads"
    and f1: "outputVec c1 = out0" "shuffledData c1 = []" "shuffleCounter c1 = 0"
      "nextReduceIndex c1 = 0"
  shows "\<exists>G c3. mset (concat G) = mset (concat (intermediateVecs c1))
          \<and> list_all (\<lambda>g. g \<noteq> []) G \<and> list_all (uniform_group lt) G
          \<and> descending_groups lt G
          \<and> shuffledData c3 = G \<and> shuffleCounter c3 = of_nat (length G)
          \<and> nextReduceIndex c3 = 0 \<and> outputVec c3 = out0
          \<and> (\<forall>reduceSched pcs2 c4 rc.
                foldl (reducePhase_step client) (replicate nThreads Entry, c3, []) reduceSched
                  = (pcs2, c4, rc) \<and> all_exited pcs2
                \<longrightarrow> runWorkers sortf lt client nThreads mapSched reduceSched ctx0
                      = Some (c4, mc, rc))"
proof -
  let ?c2 = "c1\<lparr>intermediateVecs := map (sortf (pair_less lt)) (intermediateVecs c1)\<rparr>"
  have c2: "foldl (\<lambda>c tid. sortPhase sortf lt tid c) c1 [0..<nThreads] = ?c2"
    by (rule sortPhase_all [OF l1])
  have s2: "list_all (sorted_vec lt) (intermediateVecs ?c2)"
    using sorted_map_sort [OF sort] by simp
  have v2: "mset (concat (intermediateVecs ?c2)) = mset (concat (intermediateVecs c1))"
    using mset_concat_map_sort [OF sort] by simp
  from threadFunc_shuffle_groups [OF swo s2] f1 obtain G c3 where
    r3: "threadFunc_shuffle lt ?c2 = Some c3"
    and f3: "shuffledData c3 = G" "shuffleCounter c3 = of_nat (length G)"
      "nextReduceIndex c3 = 0" "outputVec c3 = out0"
    and ms: "mset (concat G) = mset (concat (intermediateVecs ?c2))"
    and good: "list_all (\<lambda>g. g \<noteq> []) G" "list_all (uniform_group lt) G"
      "descending_groups lt G"
    by auto
  from ms v2 have ms1: "mset (concat G) = mset (concat (intermediateVecs c1))" by simp
  have rw: "runWorkers sortf lt client nThreads mapSched reduceSched ctx0 = Some (c4, mc, rc)"
    if "foldl (reducePhase_step client) (replicate nThreads Entry, c3, []) reduceSched
          = (pcs2, c4, rc) \<and> all_exited pcs2"
    for reduceSched pcs2 c4 rc
    using m ex1 c2 r3 that by (simp add: runWorkers_def)
  from ms1 good f3 rw show ?thesis by blast
qed

lemma singleton_groups:
  "list_all2 (\<lambda>g g'. mset g = mset g') G (map (\<lambda>x. [f x]) xs) \<Longrightarrow> G = map (\<lambda>x. [f x]) xs"
proof (induction xs arbitrary: G)
  case Nil
  then show ?case by simp
next
  case (Cons x xs)
  then show ?case by (auto simp: list_all2_Cons2)
qed

lemma distinct_groups:
  assumes good: "list_all (\<lambda>g. g \<noteq> []) G" "list_all (uniform_group (<)) G"
      "descending_groups (<) G"
    and ms: "mset (concat G) = mset (map (\<lambda>i. (i, v :: nat)) [0..<K])"
  shows "G = map (\<lambda>i. [(i, v)]) (rev [0..<K])"
proof -
  let ?G = "map (\<lambda>i. [(i, v)]) (rev [0..<K])"
  have g1: "list_all (\<lambda>g. g \<noteq> []) ?G" by (simp add: list_all_iff)
  have g2: "list_all (uniform_group (<)) ?G" by (simp add: list_all_iff uniform_group_def)
  have "sorted_wrt (\<lambda>x y. y < x) (rev [0..<K])"
    using sorted_wrt_upt [of 0 K] by (simp add: sorted_wrt_rev)
  then have g3: "descending_groups (<) ?G"
    by (simp add: descending_groups_def sorted_wrt_map group_above_def)
  have "concat ?G = map (\<lambda>i. (i, v)) (rev [0..<K])" by simp
  then have "mset (concat ?G) = mset (map (\<lambda>i. (i, v)) [0..<K])"
    by (simp only: rev_map [symmetric] mset_rev)
  with ms have "mset (concat G) = mset (concat ?G)" by simp
  from groups_unique [OF swo_nat good g1 g2 g3 this]
  show ?thesis by (rule singleton_groups)
qed

lemma spread_map:
  "concat (map (map_fn spread_client) spread_input)
     = map (\<lambda>i. (i, 10)) [0..<dispatch_range - 1]"
  by (simp add: spread_client_def spread_input_def)

lemma spread_reduce:
  "concat (map (reduce_fn spread_client) (map (\<lambda>i. [(i, 10)]) xs)) = map (\<lambda>i. (i, 10)) xs"
  by (induction xs) (simp_all add: spread_client_def)

lemma spread_client_order_insensitive: "order_insensitive (<) (reduce_fn spread_client)"
proof -
  have "reduce_fn spread_client = reduce_fn counter_client"
    by (simp add: spread_client_def counter_client_def)
  with counter_client_order_insensitive show ?thesis by simp
qed

lemma spread_one:
  "job_output (runWorkers insertion_sort (<) spread_client 1 [0, 0, 0]
      (replicate (dispatch_range + 1) 0) (JobContext_init spread_input [] 1))
     = Some (map (\<lambda>i. (i, 10)) (rev [0..<dispatch_range - 1]))"
proof -
  define n where "n = dispatch_range - 1"
  have n1: "n + 1 \<le> 2 ^ 32" using long_input_bounds by (simp add: n_def)
  have sc: "sort_contract (insertion_sort :: (nat \<times> nat \<Rightarrow> nat \<times> nat \<Rightarrow> bool) \<Rightarrow> _) (<)"
    by (rule insertion_sort_contract [OF swo_nat])
  have one: "(1 :: nat) \<le> 1" by simp
  have b1: "length spread_input + 1 \<le> 2 ^ 32" by (simp add: spread_input_def)
  have k: "card (key_classes (<) (concat (map (map_fn spread_client) spread_input))) = n"
    unfolding spread_map n_def by (rule key_classes_distinct_keys)
  have b2: "card (key_classes (<) (concat (map (map_fn spread_client) spread_input))) + 1
              \<le> 2 ^ 32"
    using n1 by (simp only: k)
  have f1: "fair_schedule 1 (length spread_input) [0, 0, 0]"
    by (simp add: fair_schedule_def spread_input_def)
  have "dispatch_range + 1 = n + 2" using long_input_bounds(1) by (simp add: n_def)
  then have f2: "fair_schedule 1 n (replicate (dispatch_range + 1) 0)"
    by (simp add: fair_schedule_def count_list_replicate)
  from runWorkers_groups [OF swo_nat sc one b1 b2,
      of "[0, 0, 0]" "replicate (dispatch_range + 1) 0" "[]"]
  obtain G where
    ms: "mset (concat G) = mset (concat (map (map_fn spread_client) spread_input))"
    and good: "list_all (\<lambda>g. g \<noteq> []) G" "list_all (uniform_group (<)) G"
      "descending_groups (<) G"
    and part: "\<forall>ctx' mc rc.
                runWorkers insertion_sort (<) spread_client 1 [0, 0, 0]
                  (replicate (dispatch_range + 1) 0)
                  (JobContext_init spread_input [] 1) = Some (ctx', mc, rc)
                \<longrightarrow> outputVec ctx' = [] @ concat (map (reduce_fn spread_client) G)
                    \<and> mc = [0..<length spread_input] \<and> rc = [0..<length G]"
    and tot: "fair_schedule 1 (length spread_input) [0, 0, 0]
              \<and> fair_schedule 1 (length G) (replicate (dispatch_range + 1) 0)
                \<longrightarrow> (\<exists>r. runWorkers insertion_sort (<) spread_client 1 [0, 0, 0]
                          (replicate (dispatch_range + 1) 0)
                          (JobContext_init spread_input [] 1) = Some r)"
    by blast
  from ms have "mset (concat G) = mset (map (\<lambda>i. (i, 10)) [0..<n])"
    by (simp only: spread_map n_def)
  from distinct_groups [OF good this] have G: "G = map (\<lambda>i. [(i, 10)]) (rev [0..<n])" .
  then have "length G = n" by simp
  with f2 have "fair_schedule 1 (length G) (replicate (dispatch_range + 1) 0)" by simp
  with tot f1 obtain ctx' mc rc where
    r: "runWorkers insertion_sort (<) spread_client 1 [0, 0, 0]
                          (replicate (dispatch_range + 1) 0)
                          (JobContext_init spread_input [] 1) = Some (ctx', mc, rc)"
    by auto
  with part have "outputVec ctx' = [] @ concat (map (reduce_fn spread_client) G)" by blast
  then have "outputVec ctx' = map (\<lambda>i. (i, 10)) (rev [0..<n])"
    by (simp only: G spread_reduce append_Nil)
  with r show ?thesis by (simp add: job_output_def n_def)
qed

lemma spread_two:
  "job_output (runWorkers insertion_sort (<) spread_client 2 [0, 1, 0, 1, 0, 1]
      (replicate (dispatch_range + 1) 0 @ replicate (dispatch_range + 1) 1)
      (JobContext_init spread_input [] 2))
     = Some (map (\<lambda>i. (i, 10)) (rev [0..<dispatch_range - 1])
             @ map (\<lambda>i. (i, 10)) (rev [0..<dispatch_range - 1]))"
proof -
  define n where "n = dispatch_range - 1"
  define X where "X = map (\<lambda>i. (i, 10 :: nat)) (rev [0..<n])"
  have nb: "n < 2 ^ 32" "n < 2 ^ 64" and wrap: "of_nat n + 1 = (0 :: 32 word)"
    using long_input_bounds by (simp_all add: n_def)
  have sc: "sort_contract (insertion_sort :: (nat \<times> nat \<Rightarrow> nat \<times> nat \<Rightarrow> bool) \<Rightarrow> _) (<)"
    by (rule insertion_sort_contract [OF swo_nat])
  let ?c0 = "JobContext_init spread_input [] 2 :: (nat, nat, nat, nat, nat, nat) JobContext"
  have b1: "length spread_input + 2 \<le> 2 ^ 32" by (simp add: spread_input_def)
  have two: "(1 :: nat) \<le> 2" by simp
  have f1: "fair_schedule 2 (length spread_input) [0, 1, 0, 1, 0, 1]"
    by (simp add: fair_schedule_def spread_input_def upt_rec)
  obtain pcs1 c1 mc where m: "foldl (mapPhase_step spread_client)
      (replicate 2 Entry, ?c0, []) [0, 1, 0, 1, 0, 1] = (pcs1, c1, mc)"
    by (rule prod_cases3)
  from map_run_fair [OF b1 f1, of spread_client "[]"] m have ex1: "all_exited pcs1" by simp
  from map_run_complete [OF b1 two m ex1]
  have v1: "mset (concat (intermediateVecs c1))
              = mset (concat (map (map_fn spread_client) spread_input))"
    and l1: "length (intermediateVecs c1) = 2"
    and fr: "outputVec c1 = []" "shuffledData c1 = []" "shuffleCounter c1 = 0"
      "nextReduceIndex c1 = 0"
    by simp_all
  from runWorkers_to_reduce [OF swo_nat sc m ex1 l1 fr] obtain G c3 where
    ms: "mset (concat G) = mset (concat (intermediateVecs c1))"
    and good: "list_all (\<lambda>g. g \<noteq> []) G" "list_all (uniform_group (<)) G"
      "descending_groups (<) G"
    and c3: "shuffledData c3 = G" "shuffleCounter c3 = of_nat (length G)"
      "nextReduceIndex c3 = 0" "outputVec c3 = []"
    and rw: "\<forall>reduceSched pcs2 c4 rc.
                foldl (reducePhase_step spread_client) (replicate 2 Entry, c3, []) reduceSched
                  = (pcs2, c4, rc) \<and> all_exited pcs2
                \<longrightarrow> runWorkers insertion_sort (<) spread_client 2 [0, 1, 0, 1, 0, 1]
                      reduceSched ?c0 = Some (c4, mc, rc)"
    by blast
  from ms v1 have "mset (concat G) = mset (map (\<lambda>i. (i, 10)) [0..<n])"
    by (simp only: spread_map n_def)
  from distinct_groups [OF good this] have G: "G = map (\<lambda>i. [(i, 10)]) (rev [0..<n])" .
  then have lG: "length G = n" by simp
  have red: "concat (map (reduce_fn spread_client) G) = X"
    by (simp only: G spread_reduce X_def)
  have lb: "length G < 2 ^ 32" using nb by (simp only: lG)
  have cnt: "unat (shuffleCounter c3) = length G"
    by (simp only: c3(2) lG unat_of_nat_64 [OF nb(2)])
  have wrapG: "of_nat (length G) + 1 = (0 :: 32 word)" using wrap by (simp only: lG)
  have sp: "replicate (dispatch_range + 1) t = t # replicate (length G) t @ [t]"
    for t :: nat
    using replicate_split [OF long_input_bounds(1), of t] by (simp only: lG n_def)
  have "0 < length [Entry, Entry]" "[Entry, Entry] ! 0 = Entry" by simp_all
  from reduce_worker_alone [OF this lb c3(1) cnt c3(3), of spread_client "[]"] obtain c4 where
    r1: "foldl (reducePhase_step spread_client) ([Entry, Entry], c3, [])
           (0 # replicate (length G) 0 @ [0])
          = ([Exited, Entry], c4, [0..<length G])"
    and c4: "shuffledData c4 = G" "shuffleCounter c4 = shuffleCounter c3"
      "nextReduceIndex c4 = 0" "outputVec c4 = X"
    by (auto simp: c3 wrapG red)
  from c4(2) cnt have cnt4: "unat (shuffleCounter c4) = length G" by simp
  have "1 < length [Exited, Entry]" "[Exited, Entry] ! 1 = Entry" by simp_all
  from reduce_worker_alone [OF this lb c4(1) cnt4 c4(3), of spread_client "[0..<length G]"]
  obtain c5 where
    r2: "foldl (reducePhase_step spread_client) ([Exited, Entry], c4, [0..<length G])
           (1 # replicate (length G) 1 @ [1])
          = ([Exited, Exited], c5, [0..<length G] @ [0..<length G])"
    and c5: "outputVec c5 = X @ X"
    by (auto simp: c4 red)
  have rep: "replicate 2 Entry = [Entry, Entry]" by (simp add: numeral_2_eq_2)
  have "foldl (reducePhase_step spread_client) (replicate 2 Entry, c3, [])
             (replicate (dispatch_range + 1) 0 @ replicate (dispatch_range + 1) 1)
           = ([Exited, Exited], c5, [0..<length G] @ [0..<length G])"
    by (simp only: foldl_append sp r1 r2 rep)
  moreover have "all_exited [Exited, Exited]" by (simp add: all_exited_def)
  ultimately have "runWorkers insertion_sort (<) spread_client 2 [0, 1, 0, 1, 0, 1]
      (replicate (dispatch_range + 1) 0 @ replicate (dispatch_range + 1) 1) ?c0
        = Some (c5, mc, [0..<length G] @ [0..<length G])"
    using rw by blast
  then show ?thesis by (simp add: job_output_def c5 X_def n_def)
qed

lemma tie_first_even:
  "job_output (runWorkers insertion_sort (<) first_client 2 [0, 1, 0, 1, 0, 1] [0, 1, 0, 1, 0]
     (JobContext_init tie_input [] 2)) = Some [(1, 10)]"
  by code_simp

lemma tie_first_crossed:
  "job_output (runWorkers insertion_sort (<) first_client 2 [0, 1, 1, 0, 0, 1] [0, 1, 0, 1, 0]
     (JobContext_init tie_input [] 2)) = Some [(1, 20)]"
  by code_simp

lemma tie_first_one:
  "job_output (runWorkers insertion_sort (<) first_client 1 [0, 0, 0, 0] [0, 0, 0]
     (JobContext_init tie_input [] 1)) = Some [(1, 20)]"
  by code_simp

lemma doubled_differs: "xs \<noteq> [] \<Longrightarrow> mset (xs @ xs) \<noteq> mset xs"
proof
  assume ne: "xs \<noteq> []" and "mset (xs @ xs) = mset xs"
  then have "size (mset (xs @ xs)) = size (mset xs)" by simp
  with ne show False by simp
qed

text \<open>
  C5, as stated, fails in three ways.

  A pure reduce may depend on the order of the pairs in its group, and that order
  depends on which worker mapped which input. The input holds two pairs of the same key
  and the reduce emits the first pair of its group. Two workers of which worker 0 maps
  index 0 and worker 1 maps index 1 leave the output \<open>[(1, 10)]\<close>; two workers of
  which worker 1 maps index 0 and worker 0 maps index 1 leave \<open>[(1, 20)]\<close>, and so
  does one worker.

  The 32-bit index of the map loop wraps. The input holds \<open>2^32 - 1\<close> pairs and the
  reduce, which sums the values of its group, is order-insensitive. When worker 0 leaves
  the map loop before worker 1 has entered it, its last fetch sets the index back to 0
  and worker 1 maps every input again: the sum is twice that of one worker.

  The 32-bit index of the reduce loop wraps. One input pair, for which the map emits
  \<open>2^32 - 1\<close> keys, gives as many groups. When worker 0 leaves the reduce loop before
  worker 1 has entered it, worker 1 reduces every group again: the output holds every
  pair twice.
\<close>

theorem output_depends_on_workers:
  "job_output (runWorkers insertion_sort (<) first_client 2 [0, 1, 0, 1, 0, 1] [0, 1, 0, 1, 0]
     (JobContext_init tie_input [] 2)) = Some [(1, 10)]
   \<and> job_output (runWorkers insertion_sort (<) first_client 2 [0, 1, 1, 0, 0, 1] [0, 1, 0, 1, 0]
     (JobContext_init tie_input [] 2)) = Some [(1, 20)]
   \<and> job_output (runWorkers insertion_sort (<) first_client 1 [0, 0, 0, 0] [0, 0, 0]
     (JobContext_init tie_input [] 1)) = Some [(1, 20)]
   \<and> mset [(1 :: nat, 10 :: nat)] \<noteq> mset [(1, 20)]
   \<and> order_insensitive (<) (reduce_fn counter_client)
   \<and> length long_input + 2 = 2 ^ 32 + 1
   \<and> job_output (runWorkers insertion_sort (<) counter_client 2
        (replicate (dispatch_range + 1) 0 @ replicate (dispatch_range + 1) 1)
        [0, 1, 0, 1, 0, 1] (JobContext_init long_input [] 2))
       = Some [(1, 20 * (dispatch_range - 1))]
   \<and> job_output (runWorkers insertion_sort (<) counter_client 1
        (replicate (dispatch_range + 1) 0) [0, 0, 0] (JobContext_init long_input [] 1))
       = Some [(1, 10 * (dispatch_range - 1))]
   \<and> mset [(1 :: nat, 20 * (dispatch_range - 1))] \<noteq> mset [(1, 10 * (dispatch_range - 1))]
   \<and> order_insensitive (<) (reduce_fn spread_client)
   \<and> length spread_input + 2 \<le> 2 ^ 32
   \<and> card (key_classes (<) (concat (map (map_fn spread_client) spread_input))) + 2
       = 2 ^ 32 + 1
   \<and> job_output (runWorkers insertion_sort (<) spread_client 2 [0, 1, 0, 1, 0, 1]
        (replicate (dispatch_range + 1) 0 @ replicate (dispatch_range + 1) 1)
        (JobContext_init spread_input [] 2))
       = Some (map (\<lambda>i. (i, 10)) (rev [0..<dispatch_range - 1])
               @ map (\<lambda>i. (i, 10)) (rev [0..<dispatch_range - 1]))
   \<and> job_output (runWorkers insertion_sort (<) spread_client 1 [0, 0, 0]
        (replicate (dispatch_range + 1) 0) (JobContext_init spread_input [] 1))
       = Some (map (\<lambda>i. (i, 10)) (rev [0..<dispatch_range - 1]))
   \<and> mset (map (\<lambda>i. (i, 10 :: nat)) (rev [0..<dispatch_range - 1])
             @ map (\<lambda>i. (i, 10)) (rev [0..<dispatch_range - 1]))
       \<noteq> mset (map (\<lambda>i. (i, 10)) (rev [0..<dispatch_range - 1]))"
proof -
  have d1: "mset [(1 :: nat, 10 :: nat)] \<noteq> mset [(1, 20)]" by simp
  have l: "length long_input + 2 = 2 ^ 32 + 1"
    by (simp only: long_input_length long_input_bounds(6))
  have d2: "mset [(1 :: nat, 20 * (dispatch_range - 1))] \<noteq> mset [(1, 10 * (dispatch_range - 1))]"
    using long_input_bounds(2) by simp
  have s: "length spread_input + 2 \<le> 2 ^ 32" by (simp add: spread_input_def)
  have k: "card (key_classes (<) (concat (map (map_fn spread_client) spread_input))) + 2
       = 2 ^ 32 + 1"
    by (simp only: spread_map key_classes_distinct_keys long_input_bounds(6))
  have "map (\<lambda>i. (i, 10 :: nat)) (rev [0..<dispatch_range - 1]) \<noteq> []"
    using long_input_bounds(2) by simp
  then have d3: "mset (map (\<lambda>i. (i, 10 :: nat)) (rev [0..<dispatch_range - 1])
             @ map (\<lambda>i. (i, 10)) (rev [0..<dispatch_range - 1]))
       \<noteq> mset (map (\<lambda>i. (i, 10)) (rev [0..<dispatch_range - 1]))"
    by (rule doubled_differs)
  show ?thesis
    by (intro conjI) (fact tie_first_even tie_first_crossed tie_first_one d1
        counter_client_order_insensitive l long_two long_one d2
        spread_client_order_insensitive s k spread_two spread_one d3)+
qed

end
